theory Spec2Isabelle
  imports Main "HOL-Library.Word"
begin

unbundle bit_operations_syntax

section \<open>Framebuffer filter: the dither-stride detector\<close>

text \<open>
  The C source works on raw pointers. A pointer argument is modelled as the list of the
  bytes that are accessible from it (index 0 is the byte the pointer designates). Every
  access outside that list is the error \<open>OutOfBounds\<close>, so that a result \<open>Inr\<close> says that
  the run stayed inside the buffers it was given.

  C \<open>int\<close> variables are modelled as \<open>int\<close>: every value the detector computes lies between
  \<open>-1\<close> and \<open>VISIBLE_WIDTH\<close>, a small build-time constant, so no wrap-around can occur.
  \<open>VISIBLE_WIDTH\<close> itself is declared in a header that is not part of the sources at hand;
  it is the parameter \<open>W\<close> of every function below.
\<close>

datatype error = OutOfBounds | FatalAlert

definition ebind :: "error + 'a \<Rightarrow> ('a \<Rightarrow> error + 'b) \<Rightarrow> error + 'b" where
  "ebind m f = (case m of Inl e \<Rightarrow> Inl e | Inr v \<Rightarrow> f v)"

text \<open>A counting loop \<open>for (int x = a; x < n; x++) body\<close> over a state \<open>s\<close>, entered with
  the counter at \<open>x\<close>; the first error ends it.\<close>

function for_loop :: "int \<Rightarrow> int \<Rightarrow> (int \<Rightarrow> 's \<Rightarrow> error + 's) \<Rightarrow> 's \<Rightarrow> error + 's" where
  "for_loop x n body s =
     (if x < n then ebind (body x s) (\<lambda>s'. for_loop (x + 1) n body s') else Inr s)"
  by pat_completeness auto
termination
  by (relation "measure (\<lambda>(x, n, body, s). nat (n - x))") auto

declare for_loop.simps [simp del]

text \<open>A counting loop that cannot fail.\<close>

function count_loop :: "int \<Rightarrow> int \<Rightarrow> (int \<Rightarrow> 's \<Rightarrow> 's) \<Rightarrow> 's \<Rightarrow> 's" where
  "count_loop x n body s = (if x < n then count_loop (x + 1) n body (body x s) else s)"
  by pat_completeness auto
termination
  by (relation "measure (\<lambda>(x, n, body, s). nat (n - x))") auto

declare count_loop.simps [simp del]

definition THRESH :: int where
  "THRESH = 2"

definition BLEED :: int where
  "BLEED = 1"

text \<open>\<open>indexedRow[i]\<close>: a \<open>uint8_t\<close> read, promoted to \<open>int\<close>.\<close>

definition rd :: "8 word list \<Rightarrow> int \<Rightarrow> error + int" where
  "rd a i = (if 0 \<le> i \<and> i < int (length a) then Inr (uint (a ! nat i)) else Inl OutOfBounds)"

text \<open>\<open>memset(p + start, v, n)\<close> on a byte buffer. The count is a \<open>size_t\<close>: a negative
  \<open>int\<close> converts to a huge count, which leaves every buffer.\<close>

definition memset_flags :: "8 word list \<Rightarrow> int \<Rightarrow> 8 word \<Rightarrow> int \<Rightarrow> error + 8 word list" where
  "memset_flags p start v n =
     (if 0 \<le> start \<and> 0 \<le> n \<and> start + n \<le> int (length p)
      then Inr (take (nat start) p @ replicate (nat n) v @ drop (nat (start + n)) p)
      else Inl OutOfBounds)"

text \<open>The macro \<open>COMMIT_STRIDE\<close>, with the variables it uses as arguments.\<close>

definition COMMIT_STRIDE :: "8 word list \<Rightarrow> int \<Rightarrow> int \<Rightarrow> error + 8 word list" where
  "COMMIT_STRIDE rowSmearFlags dStart dEnd =
     (let ditherLength = dEnd - dStart
      in if ditherLength > THRESH
         then memset_flags rowSmearFlags dStart 1 (ditherLength + BLEED)
         else Inr rowSmearFlags)"

text \<open>The local variables of \<open>FilterDithering_Row\<close> that live across loop iterations,
  together with the flag buffer the function writes.\<close>

record fd_state =
  prev :: int
  me :: int
  ditherStart :: int
  ditherEnd :: int
  smear :: "8 word list"

text \<open>The two branches that commit the open stride and break it.\<close>

definition commit_and_break :: "fd_state \<Rightarrow> error + fd_state" where
  "commit_and_break s =
     ebind (COMMIT_STRIDE (smear s) (ditherStart s) (ditherEnd s))
       (\<lambda>f. Inr (s\<lparr>ditherEnd := -1, smear := f\<rparr>))"

text \<open>One iteration of the loop body, at column \<open>x\<close>.\<close>

definition FD_step :: "8 word list \<Rightarrow> int \<Rightarrow> fd_state \<Rightarrow> error + fd_state" where
  "FD_step indexedRow x s =
     ebind (rd indexedRow (x + 1)) (\<lambda>next.
     ebind (if me s = next \<or> me s = prev s then commit_and_break s
            else if prev s = next
              then Inr (s\<lparr>ditherStart := (if ditherEnd s < 0 then x - 1 else ditherStart s),
                           ditherEnd := x + 1\<rparr>)
            else if x = ditherEnd s then Inr s
            else commit_and_break s)
       (\<lambda>s'. Inr (s'\<lparr>prev := me s, me := next\<rparr>)))"

text \<open>The detector's loop, \<open>for (int x = 0; x < VISIBLE_WIDTH-1; x++)\<close>, entered at
  column \<open>x\<close>.\<close>

definition FD_loop :: "int \<Rightarrow> 8 word list \<Rightarrow> int \<Rightarrow> fd_state \<Rightarrow> error + fd_state" where
  "FD_loop W indexedRow x s = for_loop x (W - 1) (FD_step indexedRow) s"

text \<open>The state in which the loop is entered: \<open>prev\<close> is the sentinel \<open>-1\<close>.\<close>

definition FD_init :: "int \<Rightarrow> 8 word list \<Rightarrow> fd_state" where
  "FD_init me0 rowSmearFlags =
     \<lparr>prev = -1, me = me0, ditherStart = 0, ditherEnd = -1, smear = rowSmearFlags\<rparr>"

text \<open>The scan: the two initial reads and the loop.\<close>

definition FD_scan :: "int \<Rightarrow> 8 word list \<Rightarrow> 8 word list \<Rightarrow> error + fd_state" where
  "FD_scan W indexedRow rowSmearFlags =
     ebind (rd indexedRow 0) (\<lambda>me0.
     ebind (rd indexedRow 1) (\<lambda>next0.
       FD_loop W indexedRow 0 (FD_init me0 rowSmearFlags)))"

definition FilterDithering_Row :: "int \<Rightarrow> 8 word list \<Rightarrow> 8 word list \<Rightarrow> error + 8 word list" where
  "FilterDithering_Row W indexedRow rowSmearFlags =
     ebind (FD_scan W indexedRow rowSmearFlags)
       (\<lambda>s. COMMIT_STRIDE (smear s) (ditherStart s) (ditherEnd s))"

text \<open>A committed stride reaches the end of the row: the scan ends with an open stride
  whose end is the last column and whose length exceeds the threshold of 2, so that the
  final \<open>COMMIT_STRIDE\<close> marks the last column. The variables of the scan do not depend on
  the flag buffer; a clear one is passed here.\<close>

definition stride_reaches_end :: "int \<Rightarrow> 8 word list \<Rightarrow> bool" where
  "stride_reaches_end W indexedRow =
     (case FD_scan W indexedRow (replicate (nat W) 0) of
        Inl e \<Rightarrow> False
      | Inr s \<Rightarrow> ditherEnd s = W - 1 \<and> 2 < ditherEnd s - ditherStart s)"

text \<open>A row made of flat runs of two or more pixels each, in the words of the
  specification: the pair \<open>(n, a)\<close> stands for a run of \<open>n + 2\<close> pixels of the palette index
  \<open>a\<close>.\<close>

fun flat_runs :: "(nat \<times> 8 word) list \<Rightarrow> 8 word list" where
  "flat_runs [] = []"
| "flat_runs ((n, a) # rs) = replicate (n + 2) a @ flat_runs rs"


section \<open>Framebuffer filter: the converters\<close>

text \<open>
  \<open>gGamePalette\<close> has two tables of 256 entries each, indexed by a \<open>uint8_t\<close>: a table
  indexed by every 8-bit value is a total function on \<open>8 word\<close>. \<open>finalColors32\<close> holds
  32-bit entries, \<open>finalColorsXX\<close> entries of the output type \<open>color_t\<close> (the type
  parameter \<open>'c\<close>). The structure's declaration is not part of the sources at hand.
\<close>

record 'c GamePalette =
  finalColors32 :: "8 word \<Rightarrow> 32 word"
  finalColorsXX :: "8 word \<Rightarrow> 'c"

text \<open>\<open>__BIG_ENDIAN__\<close> selects the byte offsets of the channels inside a 32-bit entry.\<close>

datatype endian = BigEndian | LittleEndian

definition RI :: "endian \<Rightarrow> nat" where
  "RI e = (case e of BigEndian \<Rightarrow> 0 | LittleEndian \<Rightarrow> 3)"

definition GI :: "endian \<Rightarrow> nat" where
  "GI e = (case e of BigEndian \<Rightarrow> 1 | LittleEndian \<Rightarrow> 2)"

definition BI :: "endian \<Rightarrow> nat" where
  "BI e = (case e of BigEndian \<Rightarrow> 2 | LittleEndian \<Rightarrow> 1)"

text \<open>The fourth byte of an entry, which the three offsets leave out.\<close>

definition AI :: "endian \<Rightarrow> nat" where
  "AI e = (case e of BigEndian \<Rightarrow> 3 | LittleEndian \<Rightarrow> 0)"

text \<open>The byte at offset \<open>i\<close> of a 32-bit value in memory, \<open>((uint8_t*) &v)[i]\<close>, and the
  store to it.\<close>

definition byte_shift :: "endian \<Rightarrow> nat \<Rightarrow> nat" where
  "byte_shift e i = 8 * (case e of BigEndian \<Rightarrow> 3 - i | LittleEndian \<Rightarrow> i)"

definition get_byte :: "endian \<Rightarrow> 32 word \<Rightarrow> nat \<Rightarrow> 8 word" where
  "get_byte e v i = ucast (drop_bit (byte_shift e i) v)"

definition set_byte :: "endian \<Rightarrow> 32 word \<Rightarrow> nat \<Rightarrow> 8 word \<Rightarrow> 32 word" where
  "set_byte e v i b =
     (v AND NOT (push_bit (byte_shift e i) 255)) OR push_bit (byte_shift e i) (ucast b)"

text \<open>\<open>uint16_t mix = (left + right) >> 1\<close>: the bytes are promoted to \<open>int\<close>, added and
  shifted there.\<close>

definition mix8 :: "8 word \<Rightarrow> 8 word \<Rightarrow> 16 word" where
  "mix8 left right = word_of_int (drop_bit 1 (uint left + uint right))"

definition rmix8 :: "endian \<Rightarrow> 32 word \<Rightarrow> 32 word \<Rightarrow> 16 word" where
  "rmix8 e left32 right32 = mix8 (get_byte e left32 (RI e)) (get_byte e right32 (RI e))"

definition gmix8 :: "endian \<Rightarrow> 32 word \<Rightarrow> 32 word \<Rightarrow> 16 word" where
  "gmix8 e left32 right32 = mix8 (get_byte e left32 (GI e)) (get_byte e right32 (GI e))"

definition bmix8 :: "endian \<Rightarrow> 32 word \<Rightarrow> 32 word \<Rightarrow> 16 word" where
  "bmix8 e left32 right32 = mix8 (get_byte e left32 (BI e)) (get_byte e right32 (BI e))"

text \<open>The blended write for \<open>FRAMEBUFFER_COLOR_DEPTH == 16\<close>: the whole 5-6-5 pixel is
  assigned. The last argument is the pixel that was in the output buffer.\<close>

definition blend16 :: "endian \<Rightarrow> 32 word \<Rightarrow> 32 word \<Rightarrow> 16 word \<Rightarrow> 16 word" where
  "blend16 e left32 right32 old =
     word_of_int (drop_bit 3 (uint (bmix8 e left32 right32))
                  OR push_bit 5 (drop_bit 2 (uint (gmix8 e left32 right32)))
                  OR push_bit 11 (drop_bit 3 (uint (rmix8 e left32 right32))))"

text \<open>The blended write for \<open>FRAMEBUFFER_COLOR_DEPTH == 32\<close>: three byte stores into the
  output pixel.\<close>

definition blend32 :: "endian \<Rightarrow> 32 word \<Rightarrow> 32 word \<Rightarrow> 32 word \<Rightarrow> 32 word" where
  "blend32 e left32 right32 old =
     set_byte e
       (set_byte e
          (set_byte e old (RI e) (ucast (rmix8 e left32 right32)))
          (GI e) (ucast (gmix8 e left32 right32)))
       (BI e) (ucast (bmix8 e left32 right32))"

text \<open>Reads and writes of single bytes through a pointer.\<close>

definition rd8 :: "8 word list \<Rightarrow> int \<Rightarrow> error + 8 word" where
  "rd8 a i = (if 0 \<le> i \<and> i < int (length a) then Inr (a ! nat i) else Inl OutOfBounds)"

definition wr8 :: "8 word list \<Rightarrow> int \<Rightarrow> 8 word \<Rightarrow> error + 8 word list" where
  "wr8 a i v = (if 0 \<le> i \<and> i < int (length a) then Inr (a[nat i := v]) else Inl OutOfBounds)"

text \<open>\<open>a + p\<close> for an array \<open>a\<close>: the bytes accessible from the new pointer, and the array
  after that part has been rewritten. A pointer below the array reaches nothing.\<close>

definition view :: "8 word list \<Rightarrow> int \<Rightarrow> 8 word list" where
  "view a p = (if 0 \<le> p then drop (nat p) a else [])"

definition unview :: "8 word list \<Rightarrow> int \<Rightarrow> 8 word list \<Rightarrow> 8 word list" where
  "unview a p v = (if 0 \<le> p then take (nat p) a @ v else a)"

text \<open>
  The state of a conversion: the running pointers \<open>color\<close> (an offset from the function's
  \<open>color\<close> argument, in pixels) and \<open>indexed\<close> (an offset into \<open>gIndexedFramebuffer\<close>), the
  output memory behind the \<open>color\<close> argument, and the bytes of \<open>gRowDitherStrides\<close> that
  \<open>smearFlags\<close> reaches. The output memory is a store from offsets to pixels; the caller
  has to supply a buffer that is large enough, which the source does not check.
\<close>

record 'c fc_state =
  color :: int
  indexed :: int
  mem :: "int \<Rightarrow> 'c"
  smearFlags :: "8 word list"

text \<open>The body of the column loop of \<open>IndexedFramebufferToColor_FilterDithering\<close>. The
  argument \<open>blend\<close> is the blended write of the source variant at hand: from the palette
  indices of the pixel and of its right neighbour and from the pixel that is in the
  output buffer, the pixel that is there afterwards.\<close>

definition FC_pixel ::
  "'c GamePalette \<Rightarrow> (8 word \<Rightarrow> 8 word \<Rightarrow> 'c \<Rightarrow> 'c) \<Rightarrow> 8 word list \<Rightarrow> int \<Rightarrow>
   'c fc_state \<Rightarrow> error + 'c fc_state" where
  "FC_pixel pal blend fb x s =
     ebind (rd8 (smearFlags s) x) (\<lambda>flag.
     ebind (if flag \<noteq> 0
            then ebind (rd8 fb (indexed s)) (\<lambda>i0.
                 ebind (rd8 fb (indexed s + 1)) (\<lambda>i1.
                 ebind (wr8 (smearFlags s) x 0) (\<lambda>fl.
                   Inr (s\<lparr>mem := (mem s)(color s := blend i0 i1 (mem s (color s))),
                          smearFlags := fl\<rparr>))))
            else ebind (rd8 fb (indexed s)) (\<lambda>i0.
                   Inr (s\<lparr>mem := (mem s)(color s := finalColorsXX pal i0)\<rparr>)))
       (\<lambda>s'. Inr (s'\<lparr>color := color s' + 1, indexed := indexed s' + 1\<rparr>)))"

text \<open>The three blended writes of the sources: the later variant of the file reads
  \<open>finalColors32\<close> and writes for a depth of 16 or of 32 bits.\<close>

definition blend_depth16 :: "endian \<Rightarrow> 16 word GamePalette \<Rightarrow> 8 word \<Rightarrow> 8 word \<Rightarrow> 16 word \<Rightarrow> 16 word" where
  "blend_depth16 e pal i0 i1 old = blend16 e (finalColors32 pal i0) (finalColors32 pal i1) old"

definition blend_depth32 :: "endian \<Rightarrow> 32 word GamePalette \<Rightarrow> 8 word \<Rightarrow> 8 word \<Rightarrow> 32 word \<Rightarrow> 32 word" where
  "blend_depth32 e pal i0 i1 old = blend32 e (finalColors32 pal i0) (finalColors32 pal i1) old"

text \<open>Modelled from the spec: \<open>PackedColor\<close>, through which the earlier variant of the file
  blends, is declared in a header that is not part of the sources at hand. It is taken
  as the byte-per-channel form of a colour that the spec describes: fields \<open>r\<close>, \<open>g\<close>
  and \<open>b\<close> of eight bits each, and whatever else the structure holds in the record's
  extension. That variant reads both colours from \<open>finalColorsXX\<close> and assigns the three
  fields of the output pixel.\<close>

record PackedColor =
  packed_r :: "8 word"
  packed_g :: "8 word"
  packed_b :: "8 word"

definition blend_PackedColor ::
  "('z PackedColor_scheme) GamePalette \<Rightarrow> 8 word \<Rightarrow> 8 word \<Rightarrow> 'z PackedColor_scheme \<Rightarrow>
   'z PackedColor_scheme" where
  "blend_PackedColor pal i0 i1 out =
     (let cme = finalColorsXX pal i0; cnext = finalColorsXX pal i1
      in out\<lparr>packed_r := ucast (mix8 (packed_r cme) (packed_r cnext)),
              packed_g := ucast (mix8 (packed_g cme) (packed_g cnext)),
              packed_b := ucast (mix8 (packed_b cme) (packed_b cnext))\<rparr>)"

text \<open>The body of the row loop. With \<open>__vita__\<close> the output pointer is recomputed for
  every row, with a pitch of 1024 pixels.\<close>

definition FC_row ::
  "int \<Rightarrow> bool \<Rightarrow> 'c GamePalette \<Rightarrow> (8 word \<Rightarrow> 8 word \<Rightarrow> 'c \<Rightarrow> 'c) \<Rightarrow> 8 word list \<Rightarrow> int \<Rightarrow>
   int \<Rightarrow> 'c fc_state \<Rightarrow> error + 'c fc_state" where
  "FC_row W vita pal blend fb firstRow y s0 =
     (let s = (if vita then s0\<lparr>color := (firstRow + y) * 1024\<rparr> else s0) in
      ebind (FilterDithering_Row W (view fb (indexed s)) (smearFlags s)) (\<lambda>fl.
      ebind (for_loop 0 (W - 1) (FC_pixel pal blend fb) (s\<lparr>smearFlags := fl\<rparr>)) (\<lambda>s1.
      ebind (rd8 fb (indexed s1)) (\<lambda>i.
        Inr (s1\<lparr>mem := (mem s1)(color s1 := finalColorsXX pal i),
                 color := color s1 + 1, indexed := indexed s1 + 1\<rparr>)))))"

text \<open>The function takes the output memory and \<open>gRowDitherStrides\<close> and returns both.\<close>

definition IndexedFramebufferToColor_FilterDithering ::
  "int \<Rightarrow> bool \<Rightarrow> 'c GamePalette \<Rightarrow> (8 word \<Rightarrow> 8 word \<Rightarrow> 'c \<Rightarrow> 'c) \<Rightarrow> 8 word list \<Rightarrow>
   (int \<Rightarrow> 'c) \<times> 8 word list \<Rightarrow> int \<Rightarrow> int \<Rightarrow> int \<Rightarrow> error + (int \<Rightarrow> 'c) \<times> 8 word list" where
  "IndexedFramebufferToColor_FilterDithering W vita pal blend gIndexedFramebuffer st
       threadNum firstRow numRows =
     (let gRowDitherStrides = snd st;
          s0 = \<lparr>color = (if vita then 0 else firstRow * W), indexed = firstRow * W,
                mem = fst st, smearFlags = view gRowDitherStrides (threadNum * W)\<rparr>
      in ebind (for_loop 0 numRows (FC_row W vita pal blend gIndexedFramebuffer firstRow) s0)
           (\<lambda>s. Inr (mem s, unview gRowDitherStrides (threadNum * W) (smearFlags s))))"

text \<open>The unfiltered converter shares the shape; it has no flags.\<close>

record 'c nf_state =
  nf_color :: int
  nf_indexed :: int
  nf_mem :: "int \<Rightarrow> 'c"

definition NF_pixel :: "'c GamePalette \<Rightarrow> 8 word list \<Rightarrow> int \<Rightarrow> 'c nf_state \<Rightarrow> error + 'c nf_state" where
  "NF_pixel pal fb x s =
     ebind (rd8 fb (nf_indexed s)) (\<lambda>i.
       Inr (s\<lparr>nf_mem := (nf_mem s)(nf_color s := finalColorsXX pal i),
              nf_color := nf_color s + 1, nf_indexed := nf_indexed s + 1\<rparr>))"

definition NF_row ::
  "int \<Rightarrow> bool \<Rightarrow> 'c GamePalette \<Rightarrow> 8 word list \<Rightarrow> int \<Rightarrow> int \<Rightarrow> 'c nf_state \<Rightarrow> error + 'c nf_state" where
  "NF_row W vita pal fb firstRow y s0 =
     (let s = (if vita then s0\<lparr>nf_color := (firstRow + y) * 1024\<rparr> else s0)
      in for_loop 0 W (NF_pixel pal fb) s)"

definition IndexedFramebufferToColor_NoFilter ::
  "int \<Rightarrow> bool \<Rightarrow> 'c GamePalette \<Rightarrow> 8 word list \<Rightarrow> (int \<Rightarrow> 'c) \<Rightarrow> int \<Rightarrow> int \<Rightarrow> error + (int \<Rightarrow> 'c)" where
  "IndexedFramebufferToColor_NoFilter W vita pal gIndexedFramebuffer colormem firstRow numRows =
     (let s0 = \<lparr>nf_color = (if vita then 0 else firstRow * W), nf_indexed = firstRow * W,
                nf_mem = colormem\<rparr>
      in ebind (for_loop 0 numRows (NF_row W vita pal gIndexedFramebuffer firstRow) s0)
           (\<lambda>s. Inr (nf_mem s)))"

subsection \<open>The conversion in the words of the specification\<close>

text \<open>
  The specification describes the filtered conversion pixel by pixel: a flagged pixel
  other than the last of its row is the blend of its palette entry with that of its right
  neighbour, every other pixel is its own palette entry. \<open>filtered_pixel\<close> is that
  description, for column \<open>k\<close> of the row that starts at offset \<open>ip\<close> of the framebuffer,
  with the flags \<open>fl\<close> of the detector and the pixel \<open>old\<close> that was in the output buffer.
\<close>

definition filtered_pixel ::
  "int \<Rightarrow> 'c GamePalette \<Rightarrow> (8 word \<Rightarrow> 8 word \<Rightarrow> 'c \<Rightarrow> 'c) \<Rightarrow> 8 word list \<Rightarrow> int \<Rightarrow> 8 word list \<Rightarrow>
   'c \<Rightarrow> int \<Rightarrow> 'c" where
  "filtered_pixel W pal blend fb ip fl old k =
     (if k < W - 1 \<and> fl ! nat k \<noteq> 0
      then blend (fb ! nat (ip + k)) (fb ! nat (ip + k + 1)) old
      else finalColorsXX pal (fb ! nat (ip + k)))"

text \<open>The palette of the specification's scenario: index 5 is \<open>(255, 0, 0, 255)\<close>, index 7
  is \<open>(0, 0, 255, 255)\<close>, every other index is opaque black; with the entries of
  \<open>finalColorsXX\<close> for a depth of 32 and of 16 bits.\<close>

definition scenario_palette32 :: "32 word GamePalette" where
  "scenario_palette32 =
     \<lparr>finalColors32 = (\<lambda>i. if i = 5 then 0xFF0000FF else if i = 7 then 0x0000FFFF else 0x000000FF),
      finalColorsXX = (\<lambda>i. if i = 5 then 0xFF0000FF else if i = 7 then 0x0000FFFF else 0x000000FF)\<rparr>"

definition scenario_palette16 :: "16 word GamePalette" where
  "scenario_palette16 =
     \<lparr>finalColors32 = (\<lambda>i. if i = 5 then 0xFF0000FF else if i = 7 then 0x0000FFFF else 0x000000FF),
      finalColorsXX = (\<lambda>i. if i = 5 then 0xF800 else if i = 7 then 0x001F else 0)\<rparr>"

text \<open>The specification calls the conversion row-range-partitionable. \<open>single_rows\<close> runs a
  converter \<open>n\<close> times in succession, each time on a single row, from \<open>firstRow\<close> on.\<close>

fun single_rows :: "('st \<Rightarrow> int \<Rightarrow> int \<Rightarrow> error + 'st) \<Rightarrow> int \<Rightarrow> nat \<Rightarrow> 'st \<Rightarrow> error + 'st" where
  "single_rows conv firstRow 0 st = Inr st"
| "single_rows conv firstRow (Suc n) st =
     ebind (single_rows conv firstRow n st) (\<lambda>st'. conv st' (firstRow + int n) 1)"

section \<open>Framebuffer filter: the pixel doubler\<close>

text \<open>
  \<open>DoublePixels\<close> reads the image behind \<open>colorx1\<close> and writes the image behind \<open>colorx2\<close>.
  Both are stores from pixel offsets to pixels; the source is not written. The state of
  the loops is the two running pointers and the destination.
\<close>

record 'c dp_state =
  colorx1 :: int
  colorx2 :: int
  x2mem :: "int \<Rightarrow> 'c"

text \<open>\<open>memcpy(dest, src, n * sizeof(color_t))\<close> inside one store, for regions that do not
  overlap.\<close>

definition memcpy_pixels :: "(int \<Rightarrow> 'c) \<Rightarrow> int \<Rightarrow> int \<Rightarrow> int \<Rightarrow> (int \<Rightarrow> 'c)" where
  "memcpy_pixels m dest src n = (\<lambda>a. if dest \<le> a \<and> a < dest + n then m (src + (a - dest)) else m a)"

definition DP_pixel :: "(int \<Rightarrow> 'c) \<Rightarrow> int \<Rightarrow> 'c dp_state \<Rightarrow> 'c dp_state" where
  "DP_pixel x1mem x s =
     (let pixel = x1mem (colorx1 s)
      in s\<lparr>colorx1 := colorx1 s + 1, colorx2 := colorx2 s + 2,
           x2mem := (x2mem s)(colorx2 s := pixel, colorx2 s + 1 := pixel)\<rparr>)"

definition DP_row :: "int \<Rightarrow> (int \<Rightarrow> 'c) \<Rightarrow> int \<Rightarrow> 'c dp_state \<Rightarrow> 'c dp_state" where
  "DP_row W x1mem y s =
     (let x2RowStart = colorx2 s;
          s1 = count_loop 0 W (DP_pixel x1mem) s
      in s1\<lparr>x2mem := memcpy_pixels (x2mem s1) (colorx2 s1) x2RowStart (W * 2),
            colorx2 := colorx2 s1 + W * 2\<rparr>)"

definition DoublePixels :: "int \<Rightarrow> (int \<Rightarrow> 'c) \<Rightarrow> (int \<Rightarrow> 'c) \<Rightarrow> int \<Rightarrow> int \<Rightarrow> (int \<Rightarrow> 'c)" where
  "DoublePixels W x1mem x2mem0 firstRow numRows =
     x2mem (count_loop 0 numRows (DP_row W x1mem)
       \<lparr>colorx1 = firstRow * W, colorx2 = firstRow * W * 2 * 2, x2mem = x2mem0\<rparr>)"

text \<open>Nearest-neighbour doubling in the words of the specification: the destination pixel
  at offset \<open>a\<close>, in an image \<open>2 * W\<close> wide, is the source pixel of half its row and half its
  column.\<close>

definition doubled :: "int \<Rightarrow> (int \<Rightarrow> 'c) \<Rightarrow> int \<Rightarrow> 'c" where
  "doubled W x1mem a = x1mem ((a div (2 * W)) div 2 * W + (a mod (2 * W)) div 2)"

section \<open>Palette manager: the fades\<close>

text \<open>
  In this file \<open>GamePalette\<close> is an array of 256 packed 32-bit colours, indexed here by an
  8-bit value. \<open>RGBColor\<close> is the structure of three 16-bit channels.
  The conversions \<open>U32ToRGBColor\<close> and \<open>RGBColorToU32\<close> are defined in a file that is not
  part of the sources at hand; the fades take them as the parameters \<open>toRGB\<close> and \<open>toU32\<close>.
\<close>

record RGBColor =
  red :: "16 word"
  green :: "16 word"
  blue :: "16 word"

text \<open>The module's variables, and what \<open>PresentIndexedFramebuffer\<close> was asked to show: the
  palette at each call, oldest first. The channels of \<open>RGBColor\<close> are read as unsigned
  16-bit values.\<close>

record palette_state =
  gGamePalette :: "8 word \<Rightarrow> 32 word"
  gBackUpPalette :: "8 word \<Rightarrow> 32 word"
  gSceenBlankedFlag :: bool
  presented :: "(8 word \<Rightarrow> 32 word) list"

definition MakeBackUpPalette :: "palette_state \<Rightarrow> palette_state" where
  "MakeBackUpPalette s = s\<lparr>gBackUpPalette := gGamePalette s\<rparr>"

definition RestoreBackUpPalette :: "palette_state \<Rightarrow> palette_state" where
  "RestoreBackUpPalette s = s\<lparr>gGamePalette := gBackUpPalette s\<rparr>"

text \<open>Modelled from the spec: \<open>PresentIndexedFramebuffer\<close> is defined in a file that is not
  part of the sources at hand. It shows the frame with the palette as it is and changes none
  of the module's variables; the model records the palette it was called with. The pause
  \<open>Wait(kFadeFrameDelayTicks)\<close> that follows it in both fades changes no variable and is left
  out.\<close>

definition PresentIndexedFramebuffer :: "palette_state \<Rightarrow> palette_state" where
  "PresentIndexedFramebuffer s = s\<lparr>presented := presented s @ [gGamePalette s]\<rparr>"

text \<open>\<open>(short)((int32_t) channel * brightness / 100)\<close>, stored back into the 16-bit
  channel. The product is not negative, so the C division is the floor.\<close>

definition scale_channel :: "16 word \<Rightarrow> int \<Rightarrow> 16 word" where
  "scale_channel c brightness = word_of_int (uint c * brightness div 100)"

definition scale_color :: "RGBColor \<Rightarrow> int \<Rightarrow> RGBColor" where
  "scale_color c brightness =
     c\<lparr>red := scale_channel (red c) brightness,
       green := scale_channel (green c) brightness,
       blue := scale_channel (blue c) brightness\<rparr>"

text \<open>The inner loop of both fades, \<open>for (int i = 0; i < 255; i++)\<close>, at one brightness.\<close>

definition fade_entry ::
  "(32 word \<Rightarrow> RGBColor) \<Rightarrow> (RGBColor \<Rightarrow> 32 word) \<Rightarrow> int \<Rightarrow> int \<Rightarrow> palette_state \<Rightarrow> palette_state" where
  "fade_entry toRGB toU32 brightness i s =
     s\<lparr>gGamePalette := (gGamePalette s)
          (word_of_int i := toU32 (scale_color (toRGB (gBackUpPalette s (word_of_int i))) brightness))\<rparr>"

definition fade_frame ::
  "(32 word \<Rightarrow> RGBColor) \<Rightarrow> (RGBColor \<Rightarrow> 32 word) \<Rightarrow> int \<Rightarrow> palette_state \<Rightarrow> palette_state" where
  "fade_frame toRGB toU32 brightness s =
     PresentIndexedFramebuffer (count_loop 0 255 (fade_entry toRGB toU32 brightness) s)"

text \<open>\<open>for (int brightness = 4; brightness <= 100; brightness += 8)\<close>, entered at
  \<open>brightness\<close>.\<close>

function fade_in_loop ::
  "(32 word \<Rightarrow> RGBColor) \<Rightarrow> (RGBColor \<Rightarrow> 32 word) \<Rightarrow> int \<Rightarrow> palette_state \<Rightarrow> palette_state" where
  "fade_in_loop toRGB toU32 brightness s =
     (if brightness \<le> 100
      then fade_in_loop toRGB toU32 (brightness + 8) (fade_frame toRGB toU32 brightness s)
      else s)"
  by pat_completeness auto
termination
  by (relation "measure (\<lambda>(toRGB, toU32, brightness, s). nat (101 - brightness))") auto

declare fade_in_loop.simps [simp del]

definition FadeInGameCLUT ::
  "(32 word \<Rightarrow> RGBColor) \<Rightarrow> (RGBColor \<Rightarrow> 32 word) \<Rightarrow> palette_state \<Rightarrow> palette_state" where
  "FadeInGameCLUT toRGB toU32 s =
     (RestoreBackUpPalette (fade_in_loop toRGB toU32 4 (MakeBackUpPalette s)))
       \<lparr>gSceenBlankedFlag := False\<rparr>"

text \<open>\<open>for (int brightness = 96; brightness >= 0; brightness -= 8)\<close>, entered at
  \<open>brightness\<close>.\<close>

function fade_out_loop ::
  "(32 word \<Rightarrow> RGBColor) \<Rightarrow> (RGBColor \<Rightarrow> 32 word) \<Rightarrow> int \<Rightarrow> palette_state \<Rightarrow> palette_state" where
  "fade_out_loop toRGB toU32 brightness s =
     (if brightness \<ge> 0
      then fade_out_loop toRGB toU32 (brightness - 8) (fade_frame toRGB toU32 brightness s)
      else s)"
  by pat_completeness auto
termination
  by (relation "measure (\<lambda>(toRGB, toU32, brightness, s). nat (brightness + 1))") auto

declare fade_out_loop.simps [simp del]

definition FadeOutGameCLUT ::
  "(32 word \<Rightarrow> RGBColor) \<Rightarrow> (RGBColor \<Rightarrow> 32 word) \<Rightarrow> palette_state \<Rightarrow> palette_state" where
  "FadeOutGameCLUT toRGB toU32 s =
     (if gSceenBlankedFlag s then s
      else (fade_out_loop toRGB toU32 96 (MakeBackUpPalette s))\<lparr>gSceenBlankedFlag := True\<rparr>)"

text \<open>Modelled from the spec: \<open>RGBColorToU32\<close> is defined in a file that is not part of the
  sources at hand. The spec calls a palette entry a packed 32-bit colour of four channels,
  red, green, blue and alpha; the later variant of the framebuffer filter finds red in the
  most significant byte. The 16-bit channels keep their high byte, and alpha is opaque.\<close>

definition RGBColorToU32 :: "RGBColor \<Rightarrow> 32 word" where
  "RGBColorToU32 c =
     push_bit 24 (ucast (drop_bit 8 (red c))) OR push_bit 16 (ucast (drop_bit 8 (green c))) OR
     push_bit 8 (ucast (drop_bit 8 (blue c))) OR 255"

text \<open>Modelled from the spec: \<open>U32ToRGBColor\<close> is defined in the same absent file; it is
  the inverse layout, each byte becoming the high byte of its 16-bit channel.\<close>

definition U32ToRGBColor :: "32 word \<Rightarrow> RGBColor" where
  "U32ToRGBColor v =
     \<lparr>red = push_bit 8 (ucast (drop_bit 24 v)), green = push_bit 8 (ucast (drop_bit 16 v)),
      blue = push_bit 8 (ucast (drop_bit 8 v))\<rparr>"

text \<open>The ramp that \<open>InitPaletteStuff\<close> stores in both palettes, and a state that holds it.\<close>

definition ramp_palette :: "8 word \<Rightarrow> 32 word" where
  "ramp_palette i = 0xFF000000 OR ucast i"

definition ramp_state :: palette_state where
  "ramp_state = \<lparr>gGamePalette = ramp_palette, gBackUpPalette = ramp_palette,
                  gSceenBlankedFlag = False, presented = []\<rparr>"

section \<open>OpenGL render driver: initialisation\<close>

text \<open>
  \<open>GLRender_Init\<close> talks to SDL and OpenGL. What they answer is the record \<open>gl_backend\<close>;
  the preprocessor symbols the function depends on are the record \<open>gl_build\<close>. Of the
  driver's variables the model keeps those the function assigns from its inputs, and the
  list of the messages shown by \<open>DoAlert\<close>.
\<close>

record gl_build =
  OSXPPC :: bool
  APPLE :: bool
  DEBUG :: bool

record gl_backend =
  context_created :: bool
  make_current :: int
  max_texture_size :: int
  procs_found :: bool
  gl_error :: bool

datatype alert = MaxTextureSizeBelowRequirements int int

record gl_state =
  gMaxTextureSize :: int
  gCanDoHQStretch :: bool
  alerts :: "alert list"

definition kFrameTextureWidth :: int where
  "kFrameTextureWidth = 1024"

text \<open>Modelled from the spec: \<open>GAME_ASSERT\<close> and \<open>GAME_ASSERT_MESSAGE\<close> are defined in a
  file that is not part of the sources at hand. A failed assertion is a fatal, user-visible
  abort.\<close>

definition GAME_ASSERT :: "bool \<Rightarrow> error + unit" where
  "GAME_ASSERT c = (if c then Inr () else Inl FatalAlert)"

text \<open>Modelled from the spec: \<open>DoAlert\<close> is defined in a file that is not part of the
  sources at hand. It reports a non-fatal warning, after which the program continues; the
  model appends the message to the list of warnings shown.\<close>

definition DoAlert :: "alert \<Rightarrow> gl_state \<Rightarrow> error + gl_state" where
  "DoAlert message s = Inr (s\<lparr>alerts := alerts s @ [message]\<rparr>)"

text \<open>\<open>CHECK_GL_ERROR\<close> is fatal in a debug build when OpenGL reports an error, and empty
  otherwise. The answer \<open>gl_error\<close> of the backend stands for every call of \<open>glGetError\<close>
  the function makes.\<close>

definition CHECK_GL_ERROR :: "gl_build \<Rightarrow> gl_backend \<Rightarrow> error + unit" where
  "CHECK_GL_ERROR build backend =
     (if DEBUG build \<and> gl_error backend then Inl FatalAlert else Inr ())"

text \<open>\<open>InitTextureAndPBO\<close> changes nothing the model keeps; it checks for errors.\<close>

definition InitTextureAndPBO :: "gl_build \<Rightarrow> gl_backend \<Rightarrow> error + unit" where
  "InitTextureAndPBO build backend =
     ebind (CHECK_GL_ERROR build backend) (\<lambda>u.
     ebind (CHECK_GL_ERROR build backend) (\<lambda>u.
     ebind (CHECK_GL_ERROR build backend) (\<lambda>u.
       CHECK_GL_ERROR build backend)))"

definition GLRender_Init :: "gl_build \<Rightarrow> gl_backend \<Rightarrow> gl_state \<Rightarrow> error + gl_state" where
  "GLRender_Init build backend s =
     ebind (GAME_ASSERT (context_created backend)) (\<lambda>u.
     ebind (GAME_ASSERT (make_current backend = 0)) (\<lambda>u.
     ebind (let s1 = s\<lparr>gMaxTextureSize := max_texture_size backend\<rparr>
            in if gMaxTextureSize s1 < kFrameTextureWidth
               then DoAlert (MaxTextureSizeBelowRequirements (gMaxTextureSize s1) kFrameTextureWidth) s1
               else Inr s1) (\<lambda>s2.
     ebind (Inr (s2\<lparr>gCanDoHQStretch :=
                       (if OSXPPC build then False
                        else gMaxTextureSize s2 \<ge> 2 * kFrameTextureWidth)\<rparr>)) (\<lambda>s3.
     ebind (if APPLE build then Inr () else GAME_ASSERT (procs_found backend)) (\<lambda>u.
     ebind (CHECK_GL_ERROR build backend) (\<lambda>u.
     ebind (InitTextureAndPBO build backend) (\<lambda>u. Inr s3)))))))"

section \<open>Loop invariants\<close>

text \<open>Before iteration \<open>x\<close>: the flag buffer \<open>f0\<close> has only been written below
  \<open>VISIBLE_WIDTH\<close>, the sentinel is still in \<open>prev\<close> at column 0, and an open stride lies
  between column 0 and column \<open>x\<close>.\<close>

definition I10 :: "int \<Rightarrow> 8 word list \<Rightarrow> int \<Rightarrow> fd_state \<Rightarrow> bool" where
  "I10 W f0 x s \<longleftrightarrow>
     0 \<le> x \<and> length (smear s) = length f0 \<and> drop (nat W) (smear s) = drop (nat W) f0 \<and>
     (x = 0 \<longrightarrow> prev s = -1) \<and> 0 \<le> ditherStart s \<and>
     (ditherEnd s = -1 \<or> ditherStart s + 2 \<le> ditherEnd s \<and> ditherEnd s \<le> x)"

text \<open>On a flat row no stride is ever opened and the flags are untouched.\<close>

definition I5 :: "int \<Rightarrow> 8 word list \<Rightarrow> int \<Rightarrow> fd_state \<Rightarrow> bool" where
  "I5 a f0 x s \<longleftrightarrow> 0 \<le> x \<and> me s = a \<and> ditherStart s = 0 \<and> ditherEnd s = -1 \<and> smear s = f0"

text \<open>On a row in which no pixel lies between two equal neighbours that differ from it,
  the variables \<open>me\<close> and \<open>prev\<close> follow the row and no stride is opened.\<close>

definition I2 :: "8 word list \<Rightarrow> 8 word list \<Rightarrow> int \<Rightarrow> fd_state \<Rightarrow> bool" where
  "I2 row f0 x s \<longleftrightarrow>
     0 \<le> x \<and> me s = uint (row ! nat x) \<and>
     prev s = (if x = 0 then -1 else uint (row ! nat (x - 1))) \<and>
     ditherStart s = 0 \<and> ditherEnd s = -1 \<and> smear s = f0"



text \<open>Two runs of the detector on the same row, with the flag buffers \<open>f1\<close> and \<open>f2\<close>:
  the variables agree, and so do the flags of column \<open>i\<close> if they did at the start.\<close>

definition R_flags :: "int \<Rightarrow> 8 word list \<Rightarrow> 8 word list \<Rightarrow> nat \<Rightarrow> int \<Rightarrow> fd_state \<Rightarrow> fd_state \<Rightarrow> bool" where
  "R_flags W f1 f2 i x s t \<longleftrightarrow>
     I10 W f1 x s \<and> I10 W f2 x t \<and> prev s = prev t \<and> me s = me t \<and>
     ditherStart s = ditherStart t \<and> ditherEnd s = ditherEnd t \<and> smear s ! i = smear t ! i"

text \<open>Before column \<open>x\<close> of a row whose conversion started in state \<open>t\<close>: the pointers
  have advanced by \<open>x\<close>, the flags below \<open>x\<close> are clear and the others untouched, and the
  output holds the pixels of the columns below \<open>x\<close>.\<close>

definition Q_cols ::
  "int \<Rightarrow> 'c GamePalette \<Rightarrow> (8 word \<Rightarrow> 8 word \<Rightarrow> 'c \<Rightarrow> 'c) \<Rightarrow> 8 word list \<Rightarrow> 'c fc_state \<Rightarrow> int \<Rightarrow>
   'c fc_state \<Rightarrow> bool" where
  "Q_cols W pal blend fb t x s \<longleftrightarrow>
     0 \<le> x \<and> color s = color t + x \<and> indexed s = indexed t + x \<and>
     smearFlags s = replicate (nat x) 0 @ drop (nat x) (smearFlags t) \<and>
     mem s = (\<lambda>a. if color t \<le> a \<and> a < color t + x
                   then filtered_pixel W pal blend fb (indexed t) (smearFlags t) (mem t a) (a - color t)
                   else mem t a)"

section \<open>Properties of the detector\<close>


lemma ebind_Inr [simp]: "ebind (Inr v) f = f v"
  by (simp add: ebind_def)

lemma ebind_Inl [simp]: "ebind (Inl e) f = Inl e"
  by (simp add: ebind_def)

lemma ebind_eq_Inr: "ebind m f = Inr r \<longleftrightarrow> (\<exists>v. m = Inr v \<and> f v = Inr r)"
  by (cases m) simp_all

lemma rd_in: "0 \<le> i \<Longrightarrow> i < int (length a) \<Longrightarrow> rd a i = Inr (uint (a ! nat i))"
  by (simp add: rd_def)

lemma rd_first_two:
  assumes "2 \<le> W" and "W \<le> int (length a)"
  shows "rd a 0 = Inr (uint (a ! 0))" and "rd a 1 = Inr (uint (a ! 1))"
proof -
  from assms have "0 < length a" "1 < length a" by linarith+
  then show "rd a 0 = Inr (uint (a ! 0))" and "rd a 1 = Inr (uint (a ! 1))"
    by (simp_all add: rd_def)
qed

lemma uint8_nonneg_ne: "uint (w :: 8 word) \<noteq> -1"
  using uint_ge_0 [of w] by linarith

lemma memset_flags_in:
  "0 \<le> start \<Longrightarrow> 0 \<le> n \<Longrightarrow> start + n \<le> int (length p) \<Longrightarrow>
   memset_flags p start v n = Inr (take (nat start) p @ replicate (nat n) v @ drop (nat (start + n)) p)"
  by (simp add: memset_flags_def)

lemma memset_flags_length:
  "memset_flags p start v n = Inr q \<Longrightarrow> length q = length p"
  by (auto simp: memset_flags_def split: if_splits)

lemma memset_flags_nth:
  assumes "memset_flags p start v n = Inr q" and "i < length p"
  shows "q ! i = (if start \<le> int i \<and> int i < start + n then v else p ! i)"
proof -
  define a where "a = nat start"
  define m where "m = nat n"
  from assms(1) have b: "start = int a" "n = int m" "a + m \<le> length p"
    and q: "q = take a p @ replicate m v @ drop (a + m) p"
    by (auto simp: memset_flags_def a_def m_def nat_add_distrib split: if_splits)
  have "q ! i = (if a \<le> i \<and> i < a + m then v else p ! i)"
    using b(3) assms(2) by (auto simp: q nth_append)
  then show ?thesis by (simp add: b)
qed

lemma for_loop_rule:
  assumes init: "P x s" and le: "x \<le> n"
    and step: "\<And>x s. P x s \<Longrightarrow> x < n \<Longrightarrow> \<exists>s'. body x s = Inr s' \<and> P (x + 1) s'"
  shows "\<exists>s'. for_loop x n body s = Inr s' \<and> P n s'"
  using init le
proof (induction "nat (n - x)" arbitrary: x s)
  case 0
  then have "x = n" by simp
  with 0 show ?case by (subst for_loop.simps) simp
next
  case (Suc k)
  then have lt: "x < n" by linarith
  from step [OF Suc.prems(1) lt] obtain s1 where s1: "body x s = Inr s1" "P (x + 1) s1"
    by blast
  from Suc.hyps(2) lt have "k = nat (n - (x + 1))" by linarith
  from Suc.hyps(1) [OF this s1(2)] lt obtain s' where "for_loop (x + 1) n body s1 = Inr s'" "P n s'"
    by auto
  with s1 lt show ?case
    by (subst for_loop.simps) simp
qed

lemma FD_loop_rule:
  assumes "P x s" and "x \<le> W - 1"
    and "\<And>x s. P x s \<Longrightarrow> x < W - 1 \<Longrightarrow> \<exists>s'. FD_step indexedRow x s = Inr s' \<and> P (x + 1) s'"
  shows "\<exists>s'. FD_loop W indexedRow x s = Inr s' \<and> P (W - 1) s'"
  unfolding FD_loop_def using assms by (rule for_loop_rule)

lemma for_loop_done: "n \<le> x \<Longrightarrow> for_loop x n body s = Inr s"
  by (subst for_loop.simps) simp

lemma for_loop_unfold: "x < n \<Longrightarrow> for_loop x n body s = ebind (body x s) (for_loop (x + 1) n body)"
  by (subst for_loop.simps) simp

lemma for_loop_snoc:
  assumes "x \<le> n"
  shows "for_loop x (n + 1) body s = ebind (for_loop x n body s) (body n)"
  using assms
proof (induction "nat (n - x)" arbitrary: x s)
  case 0
  then have "x = n" by simp
  then show ?case
    by (simp add: for_loop_done for_loop_unfold [of n "n + 1"] cong: sum.case_cong)
       (cases "body n s"; simp add: for_loop_done)
next
  case (Suc k)
  then have lt: "x < n" by linarith
  from Suc.hyps(2) lt have k: "k = nat (n - (x + 1))" by linarith
  have le: "x + 1 \<le> n" using lt by simp
  show ?case
    using lt Suc.hyps(1) [OF k le]
    by (cases "body x s") (simp_all add: for_loop_unfold)
qed

lemma for_loop_partial:
  assumes run: "for_loop x n body s = Inr s'" and init: "P x s" and le: "x \<le> n"
    and step: "\<And>x s s'. P x s \<Longrightarrow> x < n \<Longrightarrow> body x s = Inr s' \<Longrightarrow> P (x + 1) s'"
  shows "P n s'"
  using run init le
proof (induction "nat (n - x)" arbitrary: x s)
  case 0
  then have "x = n" by simp
  with 0 show ?case by (simp add: for_loop_done)
next
  case (Suc k)
  then have lt: "x < n" by linarith
  from Suc.prems(1) lt obtain s1 where s1: "body x s = Inr s1" "for_loop (x + 1) n body s1 = Inr s'"
    by (auto simp: for_loop_unfold ebind_eq_Inr)
  from Suc.hyps(2) lt have k: "k = nat (n - (x + 1))" by linarith
  from step [OF Suc.prems(2) lt s1(1)] have "P (x + 1) s1" .
  from Suc.hyps(1) [OF k s1(2) this] lt show ?case by simp
qed


lemma for_loop_one: "for_loop 0 1 body s = body 0 s"
  by (cases "body 0 s") (simp_all add: for_loop_unfold for_loop_done)

lemma for_loop_cong:
  assumes "\<And>y s. x \<le> y \<Longrightarrow> y < n \<Longrightarrow> body1 y s = body2 y s"
  shows "for_loop x n body1 s = for_loop x n body2 s"
  using assms
proof (induction "nat (n - x)" arbitrary: x s)
  case 0
  then show ?case by (simp add: for_loop_done)
next
  case (Suc k)
  then have lt: "x < n" by linarith
  from Suc.hyps(2) lt have k: "k = nat (n - (x + 1))" by linarith
  have b: "body1 x s = body2 x s" using Suc.prems [of x s] lt by simp
  have "for_loop (x + 1) n body1 t = for_loop (x + 1) n body2 t" for t
    using Suc.prems by (intro Suc.hyps(1) [OF k]) simp_all
  with lt b show ?case
    by (cases "body2 x s") (simp_all add: for_loop_unfold)
qed

lemma for_loop_rule2:
  assumes init: "R x s t" and le: "x \<le> n"
    and step: "\<And>x s t. R x s t \<Longrightarrow> x < n \<Longrightarrow>
        \<exists>s' t'. body1 x s = Inr s' \<and> body2 x t = Inr t' \<and> R (x + 1) s' t'"
  shows "\<exists>s' t'. for_loop x n body1 s = Inr s' \<and> for_loop x n body2 t = Inr t' \<and> R n s' t'"
  using init le
proof (induction "nat (n - x)" arbitrary: x s t)
  case 0
  then have "x = n" by simp
  with 0 show ?case by (simp add: for_loop_done)
next
  case (Suc k)
  then have lt: "x < n" by linarith
  from step [OF Suc.prems(1) lt] obtain s1 t1 where
    s1: "body1 x s = Inr s1" "body2 x t = Inr t1" "R (x + 1) s1 t1"
    by blast
  from Suc.hyps(2) lt have "k = nat (n - (x + 1))" by linarith
  from Suc.hyps(1) [OF this s1(3)] lt obtain s' t' where
    "for_loop (x + 1) n body1 s1 = Inr s'" "for_loop (x + 1) n body2 t1 = Inr t'" "R n s' t'"
    by auto
  with s1 lt show ?case by (simp add: for_loop_unfold)
qed

lemma COMMIT_STRIDE_short: "dEnd - dStart \<le> 2 \<Longrightarrow> COMMIT_STRIDE f dStart dEnd = Inr f"
  by (simp add: COMMIT_STRIDE_def THRESH_def)

lemma COMMIT_STRIDE_ok:
  assumes "0 \<le> dStart" and "dEnd < int (length f)"
  shows "\<exists>g. COMMIT_STRIDE f dStart dEnd = Inr g \<and> length g = length f \<and>
           (\<forall>i<length f. g ! i = (if 2 < dEnd - dStart \<and> dStart \<le> int i \<and> int i \<le> dEnd then 1 else f ! i))"
proof (cases "2 < dEnd - dStart")
  case False
  then show ?thesis by (simp add: COMMIT_STRIDE_short)
next
  case True
  with assms have "memset_flags f dStart 1 (dEnd - dStart + 1) =
      Inr (take (nat dStart) f @ replicate (nat (dEnd - dStart + 1)) 1 @ drop (nat (dStart + (dEnd - dStart + 1))) f)"
    by (intro memset_flags_in) simp_all
  then obtain g where g: "memset_flags f dStart 1 (dEnd - dStart + 1) = Inr g" by blast
  from True g have "COMMIT_STRIDE f dStart dEnd = Inr g"
    by (simp add: COMMIT_STRIDE_def THRESH_def BLEED_def)
  moreover have "length g = length f" by (rule memset_flags_length [OF g])
  moreover have "\<forall>i<length f. g ! i = (if 2 < dEnd - dStart \<and> dStart \<le> int i \<and> int i \<le> dEnd then 1 else f ! i)"
    using memset_flags_nth [OF g] True by auto
  ultimately show ?thesis by blast
qed

lemma drop_eq_nth:
  assumes "length g = length f" and "\<forall>i<length f. k \<le> i \<longrightarrow> g ! i = f ! i"
  shows "drop k g = drop k f"
  using assms by (intro nth_equalityI) simp_all

lemma I10_commit:
  assumes inv: "I10 W f0 x s" and x: "x \<le> W - 1" and len: "W \<le> int (length f0)"
  shows "\<exists>g. COMMIT_STRIDE (smear s) (ditherStart s) (ditherEnd s) = Inr g \<and>
           length g = length f0 \<and> drop (nat W) g = drop (nat W) f0"
proof -
  from inv have a: "0 \<le> ditherStart s" "ditherEnd s \<le> x" "length (smear s) = length f0"
    "drop (nat W) (smear s) = drop (nat W) f0"
    by (auto simp: I10_def)
  with x len have "ditherEnd s < int (length (smear s))" by simp
  from COMMIT_STRIDE_ok [OF a(1) this] obtain g where
    g: "COMMIT_STRIDE (smear s) (ditherStart s) (ditherEnd s) = Inr g" "length g = length (smear s)"
      "\<forall>i<length (smear s). g ! i = (if 2 < ditherEnd s - ditherStart s \<and> ditherStart s \<le> int i \<and> int i \<le> ditherEnd s then 1 else smear s ! i)"
    by blast
  have "drop (nat W) g = drop (nat W) (smear s)"
  proof (rule drop_eq_nth [OF g(2)], intro allI impI)
    fix i assume "i < length (smear s)" "nat W \<le> i"
    with a(2) x g(3) show "g ! i = smear s ! i" by auto
  qed
  with g a show ?thesis by auto
qed

lemma I10_step:
  assumes inv: "I10 W f0 x s" and x: "x < W - 1"
    and lenr: "W \<le> int (length indexedRow)" and len: "W \<le> int (length f0)"
  shows "\<exists>s'. FD_step indexedRow x s = Inr s' \<and> I10 W f0 (x + 1) s'"
proof -
  from inv have x0: "0 \<le> x" by (simp add: I10_def)
  define nxt where "nxt = uint (indexedRow ! nat (x + 1))"
  from x0 x lenr have rd: "rd indexedRow (x + 1) = Inr nxt"
    unfolding nxt_def by (intro rd_in) simp_all
  have nxt: "nxt \<noteq> -1" unfolding nxt_def by (rule uint8_nonneg_ne)
  from I10_commit [OF inv _ len] x obtain g where
    g: "COMMIT_STRIDE (smear s) (ditherStart s) (ditherEnd s) = Inr g"
       "length g = length f0" "drop (nat W) g = drop (nat W) f0"
    by auto
  show ?thesis
    using inv x0 nxt g
    by (auto simp: FD_step_def rd commit_and_break_def I10_def)
qed

lemma I10_init: "I10 W f0 0 (FD_init me0 f0)"
  by (simp add: I10_def FD_init_def)


lemma FD_scan_I10:
  assumes W: "2 \<le> W" and lenr: "W \<le> int (length indexedRow)" and len: "W \<le> int (length f0)"
  shows "\<exists>s. FD_scan W indexedRow f0 = Inr s \<and> I10 W f0 (W - 1) s"
proof -
  note r0 = rd_first_two(1) [OF W lenr] and r1 = rd_first_two(2) [OF W lenr]
  have "\<exists>s. FD_loop W indexedRow 0 (FD_init (uint (indexedRow ! 0)) f0) = Inr s \<and> I10 W f0 (W - 1) s"
    using W by (intro FD_loop_rule [where P = "I10 W f0"] I10_init I10_step [OF _ _ lenr len]) simp_all
  then show ?thesis by (simp add: FD_scan_def r0 r1)
qed

lemma rd_take:
  assumes "take (nat W) row1 = take (nat W) row2" and "i < W"
  shows "rd row1 i = rd row2 i"
proof (cases "0 \<le> i")
  case False
  then show ?thesis by (simp add: rd_def)
next
  case True
  with assms(2) have iW: "nat i < nat W" by simp
  from assms(1) have "length (take (nat W) row1) = length (take (nat W) row2)" by simp
  then have l: "min (length row1) (nat W) = min (length row2) (nat W)" by simp
  with iW have lt: "nat i < length row1 \<longleftrightarrow> nat i < length row2" by linarith
  have "row1 ! nat i = row2 ! nat i" if "nat i < length row1"
  proof -
    have "take (nat W) row1 ! nat i = take (nat W) row2 ! nat i" by (simp only: assms(1))
    with iW show ?thesis by simp
  qed
  with lt True show ?thesis by (auto simp: rd_def)
qed

lemma FilterDithering_Row_reads_row_only:
  assumes t: "take (nat W) row1 = take (nat W) row2" and W: "2 \<le> W"
  shows "FilterDithering_Row W row1 f = FilterDithering_Row W row2 f"
proof -
  have r0: "rd row1 0 = rd row2 0" and r1: "rd row1 1 = rd row2 1"
    using rd_take [OF t, of 0] rd_take [OF t, of 1] W by simp_all
  have "FD_step row1 y s = FD_step row2 y s" if "y < W - 1" for y s
    using rd_take [OF t, of "y + 1"] that by (simp add: FD_step_def)
  then have "for_loop 0 (W - 1) (FD_step row1) s = for_loop 0 (W - 1) (FD_step row2) s" for s
    by (intro for_loop_cong) simp
  then show ?thesis
    by (simp add: FilterDithering_Row_def FD_scan_def FD_loop_def r0 r1)
qed

text \<open>
  Claim C10. For a row of at least two 8-bit palette indices, \<open>FilterDithering_Row\<close> stays
  inside its buffers: it returns normally when the row and the flag buffer hold exactly
  \<open>VISIBLE_WIDTH\<close> bytes (so that every read of \<open>indexedRow\<close> and every \<open>memset\<close> lies in
  \<open>0 .. VISIBLE_WIDTH-1\<close>), the stride start is never negative, the stride end never
  exceeds \<open>VISIBLE_WIDTH-1\<close>, the result is that of the row cut to its first
  \<open>VISIBLE_WIDTH\<close> bytes, and in a longer flag buffer nothing at or beyond \<open>VISIBLE_WIDTH\<close>
  is changed.
\<close>

theorem FilterDithering_Row_in_bounds:
  assumes "2 \<le> W" and "W \<le> int (length indexedRow)" and "W \<le> int (length rowSmearFlags)"
  shows "\<exists>s g. FD_scan W indexedRow rowSmearFlags = Inr s \<and>
           0 \<le> ditherStart s \<and> ditherEnd s \<le> W - 1 \<and>
           FilterDithering_Row W indexedRow rowSmearFlags = Inr g \<and>
           FilterDithering_Row W (take (nat W) indexedRow) rowSmearFlags = Inr g \<and>
           length g = length rowSmearFlags \<and>
           drop (nat W) g = drop (nat W) rowSmearFlags"
proof -
  have same: "FilterDithering_Row W (take (nat W) indexedRow) rowSmearFlags =
      FilterDithering_Row W indexedRow rowSmearFlags"
    using assms(1) by (intro FilterDithering_Row_reads_row_only) simp_all
  from FD_scan_I10 [OF assms] obtain s where
    s: "FD_scan W indexedRow rowSmearFlags = Inr s" "I10 W rowSmearFlags (W - 1) s"
    by blast
  from I10_commit [OF s(2) _ assms(3)] obtain g where
    g: "COMMIT_STRIDE (smear s) (ditherStart s) (ditherEnd s) = Inr g"
       "length g = length rowSmearFlags" "drop (nat W) g = drop (nat W) rowSmearFlags"
    by auto
  from s(2) have "0 \<le> ditherStart s" "ditherEnd s \<le> W - 1"
    by (auto simp: I10_def)
  with s(1) g show ?thesis
    unfolding same by (simp add: FilterDithering_Row_def)
qed

theorem FilterDithering_Row_in_bounds_witness:
  "(2::int) \<le> 5 \<and> (5::int) \<le> int (length [1, 2, 1, 2, 1 :: 8 word]) \<and>
   (5::int) \<le> int (length [0, 0, 0, 0, 0 :: 8 word]) \<and>
   (\<exists>s g. FD_scan 5 [1, 2, 1, 2, 1] [0, 0, 0, 0, 0] = Inr s \<and>
           0 \<le> ditherStart s \<and> ditherEnd s \<le> 5 - 1 \<and>
           FilterDithering_Row 5 [1, 2, 1, 2, 1] [0, 0, 0, 0, 0] = Inr g \<and>
           FilterDithering_Row 5 (take (nat 5) [1, 2, 1, 2, 1]) [0, 0, 0, 0, 0] = Inr g \<and>
           length g = length [0, 0, 0, 0, 0 :: 8 word] \<and>
           drop (nat 5) g = drop (nat 5) [0, 0, 0, 0, 0])"
  using FilterDithering_Row_in_bounds [of 5 "[1, 2, 1, 2, 1]" "[0, 0, 0, 0, 0]"] by simp

lemma I5_step:
  assumes inv: "I5 (uint a) f0 x s" and x: "x < W - 1"
    and lenr: "W \<le> int (length indexedRow)" and flat: "\<forall>i<nat W. indexedRow ! i = a"
  shows "\<exists>s'. FD_step indexedRow x s = Inr s' \<and> I5 (uint a) f0 (x + 1) s'"
proof -
  from inv have x0: "0 \<le> x" by (simp add: I5_def)
  with x flat have "indexedRow ! nat (x + 1) = a" by simp
  with x0 x lenr have rd: "rd indexedRow (x + 1) = Inr (uint a)"
    by (simp add: rd_def)
  show ?thesis
    using inv x0
    by (simp add: FD_step_def rd commit_and_break_def I5_def COMMIT_STRIDE_short)
qed

text \<open>
  Claim C5. On a row in which every pixel has the same palette index the detector sets no
  flag: the flag buffer comes back as it went in, hence all-clear when it was all-clear.
\<close>

theorem FilterDithering_Row_flat:
  assumes "2 \<le> W" and "W \<le> int (length indexedRow)" and "\<forall>i<nat W. indexedRow ! i = a"
  shows "FilterDithering_Row W indexedRow rowSmearFlags = Inr rowSmearFlags"
proof -
  from assms have r0: "rd indexedRow 0 = Inr (uint a)" and r1: "rd indexedRow 1 = Inr (uint a)"
    using rd_first_two [of W indexedRow] by simp_all
  have "\<exists>s. FD_loop W indexedRow 0 (FD_init (uint a) rowSmearFlags) = Inr s \<and> I5 (uint a) rowSmearFlags (W - 1) s"
    using assms(1)
    by (intro FD_loop_rule [where P = "I5 (uint a) rowSmearFlags"] I5_step [OF _ _ assms(2,3)])
       (simp_all add: I5_def FD_init_def)
  then show ?thesis
    by (auto simp: FilterDithering_Row_def FD_scan_def r0 r1 I5_def COMMIT_STRIDE_short)
qed

theorem FilterDithering_Row_flat_witness:
  "(2::int) \<le> 4 \<and> (4::int) \<le> int (length [7, 7, 7, 7 :: 8 word]) \<and>
   FilterDithering_Row 4 [7, 7, 7, 7] [0, 0, 0, 0] = Inr [0, 0, 0, 0]"
proof -
  have h: "\<forall>i<nat 4. [7, 7, 7, 7 :: 8 word] ! i = 7"
    by (simp add: nth_Cons' less_Suc_eq eval_nat_numeral)
  show ?thesis
    using h FilterDithering_Row_flat [of 4 "[7, 7, 7, 7]" 7 "[0, 0, 0, 0]"] by simp
qed



lemma I2_step:
  assumes inv: "I2 row f0 x s" and x: "x < W - 1" and lenr: "W \<le> int (length row)"
    and noaba: "\<And>k. 0 < k \<Longrightarrow> int k + 1 < W \<Longrightarrow> row ! (k - 1) = row ! (k + 1) \<Longrightarrow> row ! k = row ! (k + 1)"
  shows "\<exists>s'. FD_step row x s = Inr s' \<and> I2 row f0 (x + 1) s'"
proof -
  from inv have x0: "0 \<le> x" and m: "me s = uint (row ! nat x)"
    and p: "prev s = (if x = 0 then -1 else uint (row ! nat (x - 1)))"
    and d: "ditherStart s = 0" "ditherEnd s = -1" "smear s = f0"
    unfolding I2_def by blast+
  define nxt where "nxt = uint (row ! nat (x + 1))"
  have rd: "rd row (x + 1) = Inr nxt"
    unfolding nxt_def using x0 x lenr by (intro rd_in) simp_all
  have cb: "commit_and_break s = Inr s"
    by (simp add: commit_and_break_def COMMIT_STRIDE_short d)
  have nomid: "\<not> (me s \<noteq> nxt \<and> me s \<noteq> prev s \<and> prev s = nxt)"
  proof
    assume a: "me s \<noteq> nxt \<and> me s \<noteq> prev s \<and> prev s = nxt"
    have "x \<noteq> 0" using a p uint8_nonneg_ne [of "row ! nat (x + 1)"] by (auto simp: nxt_def)
    with x0 have xp: "0 < x" by simp
    with a p have "uint (row ! nat (x - 1)) = uint (row ! nat (x + 1))" by (simp add: nxt_def)
    then have "row ! nat (x - 1) = row ! nat (x + 1)" by (simp only: word_uint_eq_iff)
    moreover have "nat (x - 1) = nat x - 1" "nat (x + 1) = nat x + 1" using xp by simp_all
    ultimately have "row ! (nat x - 1) = row ! (nat x + 1)" by simp
    from noaba [OF _ _ this] xp x have "row ! nat x = row ! (nat x + 1)" by simp
    with a m show False using xp by (simp add: nxt_def nat_add_distrib)
  qed
  have step: "FD_step row x s = Inr (s\<lparr>prev := me s, me := nxt\<rparr>)"
    using nomid x0 d(2) by (auto simp: FD_step_def rd cb)
  have "I2 row f0 (x + 1) (s\<lparr>prev := me s, me := nxt\<rparr>)"
    using x0 m d by (simp add: I2_def nxt_def)
  with step show ?thesis by blast
qed

lemma FilterDithering_Row_no_aba:
  assumes W: "2 \<le> W" and lenr: "W \<le> int (length row)"
    and noaba: "\<And>k. 0 < k \<Longrightarrow> int k + 1 < W \<Longrightarrow> row ! (k - 1) = row ! (k + 1) \<Longrightarrow> row ! k = row ! (k + 1)"
  shows "FilterDithering_Row W row fl = Inr fl"
proof -
  note r0 = rd_first_two(1) [OF W lenr] and r1 = rd_first_two(2) [OF W lenr]
  have "\<exists>s. FD_loop W row 0 (FD_init (uint (row ! 0)) fl) = Inr s \<and> I2 row fl (W - 1) s"
  proof (rule FD_loop_rule [where P = "I2 row fl"])
    show "I2 row fl 0 (FD_init (uint (row ! 0)) fl)" by (simp add: I2_def FD_init_def)
    show "0 \<le> W - 1" using W by simp
  next
    fix x s assume "I2 row fl x s" "x < W - 1"
    then show "\<exists>s'. FD_step row x s = Inr s' \<and> I2 row fl (x + 1) s'"
      using lenr noaba by (rule I2_step)
  qed
  then show ?thesis
    by (auto simp: FilterDithering_Row_def FD_scan_def r0 r1 I2_def COMMIT_STRIDE_short)
qed

lemma flat_runs_neighbour:
  "k < length (flat_runs rs) \<Longrightarrow>
     (0 < k \<and> flat_runs rs ! (k - 1) = flat_runs rs ! k) \<or>
     (k + 1 < length (flat_runs rs) \<and> flat_runs rs ! (k + 1) = flat_runs rs ! k)"
proof (induction rs arbitrary: k)
  case Nil
  then show ?case by simp
next
  case (Cons r rs)
  obtain n a where r: "r = (n, a)" by (cases r)
  define m where "m = n + 2"
  have fr: "flat_runs (r # rs) = replicate m a @ flat_runs rs" by (simp add: r m_def)
  have m2: "2 \<le> m" by (simp add: m_def)
  show ?case
  proof (cases "k < m")
    case True
    show ?thesis
    proof (cases "k = 0")
      case True
      with m2 show ?thesis unfolding fr by (simp add: nth_append)
    next
      case False
      with True have "0 < k" "k - 1 < m" by simp_all
      with True have "0 < k \<and> (replicate m a @ flat_runs rs) ! (k - 1) = (replicate m a @ flat_runs rs) ! k"
        by (simp add: nth_append)
      then show ?thesis unfolding fr by blast
    qed
  next
    case False
    define j where "j = k - m"
    have k: "k = m + j" using False by (simp add: j_def)
    from Cons.prems have j: "j < length (flat_runs rs)" unfolding fr by (simp add: k)
    from Cons.IH [OF j] show ?thesis
    proof
      assume a: "0 < j \<and> flat_runs rs ! (j - 1) = flat_runs rs ! j"
      then have k1: "k - 1 = m + (j - 1)" using k by simp
      have "(replicate m a @ flat_runs rs) ! (k - 1) = flat_runs rs ! (j - 1)"
        unfolding k1 by (simp add: nth_append)
      moreover have "(replicate m a @ flat_runs rs) ! k = flat_runs rs ! j"
        unfolding k by (simp add: nth_append)
      moreover have "0 < k" using a k by simp
      ultimately show ?thesis unfolding fr using a by simp
    next
      assume a: "j + 1 < length (flat_runs rs) \<and> flat_runs rs ! (j + 1) = flat_runs rs ! j"
      have "(replicate m a @ flat_runs rs) ! (k + 1) = flat_runs rs ! (j + 1)"
        unfolding k by (simp add: nth_append)
      moreover have "(replicate m a @ flat_runs rs) ! k = flat_runs rs ! j"
        unfolding k by (simp add: nth_append)
      moreover have "k + 1 < length (replicate m a @ flat_runs rs)" using a k by simp
      ultimately show ?thesis unfolding fr using a by simp
    qed
  qed
qed

lemma flat_runs_no_flags:
  "FilterDithering_Row (int (length (flat_runs (r # rs)))) (flat_runs (r # rs)) fl = Inr fl"
proof (rule FilterDithering_Row_no_aba)
  obtain n a where r: "r = (n, a)" by (cases r)
  show "2 \<le> int (length (flat_runs (r # rs)))" by (simp add: r)
  show "int (length (flat_runs (r # rs))) \<le> int (length (flat_runs (r # rs)))" by simp
next
  fix k :: nat
  assume k: "0 < k" "int k + 1 < int (length (flat_runs (r # rs)))"
    and eq: "flat_runs (r # rs) ! (k - 1) = flat_runs (r # rs) ! (k + 1)"
  from k(2) have "k < length (flat_runs (r # rs))" by linarith
  from flat_runs_neighbour [OF this] eq
  show "flat_runs (r # rs) ! k = flat_runs (r # rs) ! (k + 1)" by auto
qed

text \<open>
  Claim C2 (as amended). \<open>COMMIT_STRIDE\<close> on a stride inside the buffer: when the length
  \<open>ditherEnd - ditherStart\<close> exceeds the threshold of 2, the flags from \<open>ditherStart\<close> to
  \<open>ditherEnd\<close>, both included, are set to 1 (that is \<open>ditherLength + BLEED\<close> flags) and no
  other flag changes, in particular not the one after \<open>ditherEnd\<close>; otherwise no flag
  changes. On a row in which no pixel lies between two equal neighbours that differ from
  it no stride is ever opened, and the detector sets no flag. Every row made of flat runs of
  two or more pixels is such a row, however many runs it has: a transition
  \<open>A, A, B, B\<close> with flat runs around it is one.
\<close>

theorem COMMIT_STRIDE_marks_start_to_end:
  assumes "0 \<le> dStart" and "dEnd < int (length rowSmearFlags)"
    and "2 \<le> W" and "W \<le> int (length indexedRow)"
    and "\<forall>k. 0 < k \<and> int k + 1 < W \<and> indexedRow ! (k - 1) = indexedRow ! (k + 1) \<longrightarrow>
             indexedRow ! k = indexedRow ! (k + 1)"
  shows "(\<exists>g. COMMIT_STRIDE rowSmearFlags dStart dEnd = Inr g \<and> length g = length rowSmearFlags \<and>
            (\<forall>i<length rowSmearFlags.
               g ! i = (if 2 < dEnd - dStart \<and> dStart \<le> int i \<and> int i \<le> dEnd
                        then 1 else rowSmearFlags ! i))) \<and>
         FilterDithering_Row W indexedRow flags = Inr flags \<and>
         FilterDithering_Row (int (length (flat_runs (r # rs)))) (flat_runs (r # rs)) flags' = Inr flags'"
proof -
  have "FilterDithering_Row W indexedRow flags = Inr flags"
    using assms(3,4) by (rule FilterDithering_Row_no_aba) (use assms(5) in blast)
  with COMMIT_STRIDE_ok [OF assms(1,2)] flat_runs_no_flags [of r rs flags'] show ?thesis by simp
qed

theorem COMMIT_STRIDE_marks_start_to_end_witness:
  "(\<exists>g. COMMIT_STRIDE [0, 0, 0, 0, 0, 0] 0 3 = Inr g \<and> length g = length [0, 0, 0, 0, 0, 0 :: 8 word] \<and>
        g ! 0 = 1 \<and> g ! 3 = 1 \<and> g ! 4 = 0) \<and>
   FilterDithering_Row 6 [3, 1, 1, 2, 2, 4] [0, 0, 0, 0, 0, 0] = Inr [0, 0, 0, 0, 0, 0] \<and>
   FilterDithering_Row 8 [9, 9, 1, 1, 2, 2, 9, 9] [0, 0, 0, 0, 0, 0, 0, 0] =
     Inr [0, 0, 0, 0, 0, 0, 0, 0]"
proof -
  have "indexedRow ! k = indexedRow ! (k + 1)"
    if "indexedRow = [3, 1, 1, 2, 2, 4 :: 8 word]" and "0 < k" and "int k + 1 < 6"
      and "indexedRow ! (k - 1) = indexedRow ! (k + 1)" for k :: nat and indexedRow
  proof -
    from that(2,3) consider "k = 1" | "k = 2" | "k = 3" | "k = 4"
      by linarith
    then show ?thesis using that(1,4) by cases simp_all
  qed
  then have "\<forall>k. 0 < k \<and> int k + 1 < 6 \<and>
      [3, 1, 1, 2, 2, 4 :: 8 word] ! (k - 1) = [3, 1, 1, 2, 2, 4] ! (k + 1) \<longrightarrow>
      [3, 1, 1, 2, 2, 4 :: 8 word] ! k = [3, 1, 1, 2, 2, 4] ! (k + 1)"
    by blast
  then show ?thesis
    using COMMIT_STRIDE_marks_start_to_end [of 0 3 "[0, 0, 0, 0, 0, 0]" 6 "[3, 1, 1, 2, 2, 4]"
        "[0, 0, 0, 0, 0, 0]" "(0, 9)" "[(0, 1), (0, 2), (0, 9)]" "[0, 0, 0, 0, 0, 0, 0, 0]"]
    by auto
qed

theorem no_trailing_flag_counterexample:
  "COMMIT_STRIDE [0, 0, 0, 0, 0, 0] 0 3 = Inr [1, 1, 1, 1, 0, 0] \<and>
   FilterDithering_Row 6 [10, 20, 10, 20, 30, 30] [0, 0, 0, 0, 0, 0] = Inr [1, 1, 1, 1, 0, 0]"
  by code_simp

lemma FD_step_cases:
  assumes rd: "rd row (x + 1) = Inr nxt" and step: "FD_step row x s = Inr s'"
  obtains
    (commit) g where "me s = nxt \<or> me s = prev s \<or> (prev s \<noteq> nxt \<and> x \<noteq> ditherEnd s)"
      and "COMMIT_STRIDE (smear s) (ditherStart s) (ditherEnd s) = Inr g"
      and "s' = s\<lparr>prev := me s, me := nxt, ditherEnd := -1, smear := g\<rparr>"
  | (middle) "me s \<noteq> nxt" and "me s \<noteq> prev s" and "prev s = nxt"
      and "s' = s\<lparr>prev := me s, me := nxt,
                   ditherStart := (if ditherEnd s < 0 then x - 1 else ditherStart s),
                   ditherEnd := x + 1\<rparr>"
  | (keep) "me s \<noteq> nxt" and "me s \<noteq> prev s" and "prev s \<noteq> nxt" and "x = ditherEnd s"
      and "s' = s\<lparr>prev := me s, me := nxt\<rparr>"
  using step
  by (auto simp: FD_step_def rd commit_and_break_def ebind_eq_Inr split: if_splits)








lemma COMMIT_STRIDE_outside:
  assumes c: "COMMIT_STRIDE f dStart dEnd = Inr g"
    and b: "0 \<le> dStart" "dEnd < int (length f)"
    and i: "i < length f" and out: "dEnd < int i \<or> int i < dStart"
  shows "g ! i = f ! i"
  using COMMIT_STRIDE_ok [OF b] c i out by auto






section \<open>Properties of the converters\<close>

lemma COMMIT_STRIDE_length: "COMMIT_STRIDE f a b = Inr g \<Longrightarrow> length g = length f"
  by (auto simp: COMMIT_STRIDE_def Let_def dest: memset_flags_length split: if_splits)

lemma FD_step_length: "FD_step row x s = Inr s' \<Longrightarrow> length (smear s') = length (smear s)"
  by (auto simp: FD_step_def commit_and_break_def ebind_eq_Inr dest: COMMIT_STRIDE_length split: if_splits)

lemma FilterDithering_Row_length:
  assumes "FilterDithering_Row W row fl = Inr g"
  shows "length g = length fl"
proof -
  from assms obtain me0 s where s: "for_loop 0 (W - 1) (FD_step row) (FD_init me0 fl) = Inr s"
    and g: "COMMIT_STRIDE (smear s) (ditherStart s) (ditherEnd s) = Inr g"
    by (auto simp: FilterDithering_Row_def FD_scan_def FD_loop_def ebind_eq_Inr)
  have "length (smear s) = length fl"
  proof (cases "0 \<le> W - 1")
    case True
    show ?thesis
    proof (rule for_loop_partial [where P = "\<lambda>x s. length (smear s) = length fl", OF s _ True])
      show "length (smear (FD_init me0 fl)) = length fl" by (simp add: FD_init_def)
    next
      fix x s s' assume "length (smear s) = length fl" "FD_step row x s = Inr s'"
      then show "length (smear s') = length fl" by (simp add: FD_step_length)
    qed
  next
    case False
    with s have "s = FD_init me0 fl" by (simp add: for_loop_done)
    then show ?thesis by (simp add: FD_init_def)
  qed
  with COMMIT_STRIDE_length [OF g] show ?thesis by simp
qed

lemma FC_pixel_partial:
  assumes "FC_pixel pal blend fb x s = Inr s'"
  shows "color s' = color s + 1 \<and> indexed s' = indexed s + 1 \<and>
         length (smearFlags s') = length (smearFlags s)"
  using assms
  by (auto simp: FC_pixel_def ebind_eq_Inr wr8_def split: if_splits)

lemma FC_cols_partial:
  assumes run: "for_loop 0 n (FC_pixel pal blend fb) s = Inr s'" and n: "0 \<le> n"
  shows "color s' = color s + n \<and> indexed s' = indexed s + n \<and>
         length (smearFlags s') = length (smearFlags s)"
proof (rule for_loop_partial [where P = "\<lambda>x t. color t = color s + x \<and> indexed t = indexed s + x \<and>
      length (smearFlags t) = length (smearFlags s)", OF run _ n])
  show "color s = color s + 0 \<and> indexed s = indexed s + 0 \<and> length (smearFlags s) = length (smearFlags s)"
    by simp
next
  fix x t t'
  assume "color t = color s + x \<and> indexed t = indexed s + x \<and> length (smearFlags t) = length (smearFlags s)"
    and "FC_pixel pal blend fb x t = Inr t'"
  then show "color t' = color s + (x + 1) \<and> indexed t' = indexed s + (x + 1) \<and>
         length (smearFlags t') = length (smearFlags s)"
    using FC_pixel_partial [of pal blend fb x t t'] by simp
qed

lemma FC_row_partial:
  assumes "FC_row W vita pal blend fb firstRow y s = Inr s'" and "1 \<le> W"
  shows "color s' = (if vita then (firstRow + y) * 1024 else color s) + W \<and>
         indexed s' = indexed s + W \<and> length (smearFlags s') = length (smearFlags s)"
proof -
  define t where "t = (if vita then s\<lparr>color := (firstRow + y) * 1024\<rparr> else s)"
  from assms(1) obtain fl s1 i where
    fl: "FilterDithering_Row W (view fb (indexed t)) (smearFlags t) = Inr fl"
    and s1: "for_loop 0 (W - 1) (FC_pixel pal blend fb) (t\<lparr>smearFlags := fl\<rparr>) = Inr s1"
    and s': "s' = s1\<lparr>mem := (mem s1)(color s1 := finalColorsXX pal i),
                 color := color s1 + 1, indexed := indexed s1 + 1\<rparr>"
    by (auto simp: FC_row_def Let_def t_def [symmetric] ebind_eq_Inr)
  from assms(2) have "0 \<le> W - 1" by simp
  from FC_cols_partial [OF s1 this] FilterDithering_Row_length [OF fl]
  show ?thesis by (simp add: s' t_def)
qed

lemma FC_rows_partial:
  assumes run: "for_loop 0 n (FC_row W vita pal blend fb firstRow) s = Inr s'" and n: "0 \<le> n" and W: "1 \<le> W"
  shows "(\<not> vita \<longrightarrow> color s' = color s + n * W) \<and> indexed s' = indexed s + n * W \<and>
         length (smearFlags s') = length (smearFlags s)"
proof (rule for_loop_partial [where P = "\<lambda>y t. (\<not> vita \<longrightarrow> color t = color s + y * W) \<and>
      indexed t = indexed s + y * W \<and> length (smearFlags t) = length (smearFlags s)", OF run _ n])
  show "(\<not> vita \<longrightarrow> color s = color s + 0 * W) \<and> indexed s = indexed s + 0 * W \<and>
      length (smearFlags s) = length (smearFlags s)"
    by simp
next
  fix y t t'
  assume inv: "(\<not> vita \<longrightarrow> color t = color s + y * W) \<and> indexed t = indexed s + y * W \<and>
      length (smearFlags t) = length (smearFlags s)"
    and step: "FC_row W vita pal blend fb firstRow y t = Inr t'"
  from FC_row_partial [OF step W] inv
  show "(\<not> vita \<longrightarrow> color t' = color s + (y + 1) * W) \<and> indexed t' = indexed s + (y + 1) * W \<and>
      length (smearFlags t') = length (smearFlags s)"
    by (simp add: distrib_right)
qed

lemma view_unview:
  assumes "length fl = length (view a p)"
  shows "view (unview a p fl) p = fl"
proof (cases "0 \<le> p \<and> nat p \<le> length a")
  case True
  then show ?thesis by (simp add: view_def unview_def)
next
  case False
  with assms have "fl = []" by (auto simp: view_def split: if_splits)
  then show ?thesis by (simp add: view_def unview_def)
qed

lemma unview_view: "unview a p (view a p) = a"
  by (simp add: view_def unview_def)

lemma unview_unview:
  assumes "length fl = length (view a p)"
  shows "unview (unview a p fl) p fl' = unview a p fl'"
proof (cases "0 \<le> p \<and> nat p \<le> length a")
  case True
  then show ?thesis by (simp add: view_def unview_def)
next
  case False
  with assms have "fl = []" by (auto simp: view_def split: if_splits)
  with False show ?thesis by (auto simp: view_def unview_def)
qed


lemma FC_single_rows:
  assumes W: "1 \<le> W"
  shows "IndexedFramebufferToColor_FilterDithering W vita pal blend fb st threadNum firstRow (int n) =
         single_rows (\<lambda>st' r k. IndexedFramebufferToColor_FilterDithering W vita pal blend fb st' threadNum r k)
           firstRow n st"
proof (induction n)
  case 0
  show ?case
    by (simp add: IndexedFramebufferToColor_FilterDithering_def Let_def for_loop_done unview_view)
next
  case (Suc n)
  define base where "base = threadNum * W"
  define s0 where "s0 = \<lparr>color = (if vita then 0 else firstRow * W), indexed = firstRow * W,
                mem = fst st, smearFlags = view (snd st) base\<rparr>"
  define body where "body = FC_row W vita pal blend fb firstRow"
  have call: "\<And>k. IndexedFramebufferToColor_FilterDithering W vita pal blend fb st threadNum firstRow k =
      ebind (for_loop 0 k body s0) (\<lambda>s. Inr (mem s, unview (snd st) base (smearFlags s)))"
    by (simp add: IndexedFramebufferToColor_FilterDithering_def Let_def s0_def body_def base_def)
  have snoc: "for_loop 0 (int (Suc n)) body s0 = ebind (for_loop 0 (int n) body s0) (body (int n))"
    using for_loop_snoc [of 0 "int n" body s0] by (simp add: add.commute)
  have ih: "single_rows (\<lambda>st' r k. IndexedFramebufferToColor_FilterDithering W vita pal blend fb st' threadNum r k)
           firstRow n st = ebind (for_loop 0 (int n) body s0) (\<lambda>s. Inr (mem s, unview (snd st) base (smearFlags s)))"
    using Suc.IH by (simp add: call)
  show ?case
  proof (cases "for_loop 0 (int n) body s0")
    case (Inl e)
    then show ?thesis
      by (simp add: call snoc ih del: of_nat_Suc)
  next
    case (Inr s)
    from FC_rows_partial [OF Inr [unfolded body_def] _ W]
    have p: "\<not> vita \<longrightarrow> color s = color s0 + int n * W" "indexed s = indexed s0 + int n * W"
      "length (smearFlags s) = length (smearFlags s0)"
      by simp_all
    have len: "length (smearFlags s) = length (view (snd st) base)"
      using p(3) by (simp add: s0_def)
    define s1 where "s1 = \<lparr>color = (if vita then 0 else (firstRow + int n) * W),
        indexed = (firstRow + int n) * W, mem = mem s,
        smearFlags = view (unview (snd st) base (smearFlags s)) base\<rparr>"
    have row: "FC_row W vita pal blend fb (firstRow + int n) 0 s1 = body (int n) s"
    proof (cases vita)
      case True
      have "s1\<lparr>color := (firstRow + int n + 0) * 1024\<rparr> = s\<lparr>color := (firstRow + int n) * 1024\<rparr>"
        using p(2) by (simp add: s1_def s0_def view_unview [OF len] distrib_right)
      with True show ?thesis by (simp add: FC_row_def body_def)
    next
      case False
      with p have "s1 = s"
        by (simp add: s1_def s0_def view_unview [OF len] distrib_right)
      with False show ?thesis by (simp add: FC_row_def body_def)
    qed
    have "IndexedFramebufferToColor_FilterDithering W vita pal blend fb
            (mem s, unview (snd st) base (smearFlags s)) threadNum (firstRow + int n) 1 =
          ebind (body (int n) s) (\<lambda>s'. Inr (mem s', unview (snd st) base (smearFlags s')))"
      by (simp add: IndexedFramebufferToColor_FilterDithering_def Let_def for_loop_one
          base_def [symmetric] s1_def [symmetric] row unview_unview [OF len])
    with Inr show ?thesis
      by (simp add: call snoc ih del: of_nat_Suc)
  qed
qed


lemma NF_pixel_partial:
  assumes "NF_pixel pal fb x s = Inr s'"
  shows "nf_color s' = nf_color s + 1 \<and> nf_indexed s' = nf_indexed s + 1"
  using assms by (auto simp: NF_pixel_def ebind_eq_Inr)

lemma NF_cols_partial:
  assumes run: "for_loop 0 n (NF_pixel pal fb) s = Inr s'" and n: "0 \<le> n"
  shows "nf_color s' = nf_color s + n \<and> nf_indexed s' = nf_indexed s + n"
proof (rule for_loop_partial [where P = "\<lambda>x t. nf_color t = nf_color s + x \<and> nf_indexed t = nf_indexed s + x",
      OF run _ n])
  show "nf_color s = nf_color s + 0 \<and> nf_indexed s = nf_indexed s + 0" by simp
next
  fix x t t'
  assume "nf_color t = nf_color s + x \<and> nf_indexed t = nf_indexed s + x"
    and "NF_pixel pal fb x t = Inr t'"
  then show "nf_color t' = nf_color s + (x + 1) \<and> nf_indexed t' = nf_indexed s + (x + 1)"
    using NF_pixel_partial [of pal fb x t t'] by simp
qed

lemma NF_row_partial:
  assumes "NF_row W vita pal fb firstRow y s = Inr s'" and "0 \<le> W"
  shows "nf_color s' = (if vita then (firstRow + y) * 1024 else nf_color s) + W \<and>
         nf_indexed s' = nf_indexed s + W"
  using assms NF_cols_partial [of W pal fb "if vita then s\<lparr>nf_color := (firstRow + y) * 1024\<rparr> else s" s']
  by (auto simp: NF_row_def Let_def split: if_splits)

lemma NF_rows_partial:
  assumes run: "for_loop 0 n (NF_row W vita pal fb firstRow) s = Inr s'" and n: "0 \<le> n" and W: "0 \<le> W"
  shows "(\<not> vita \<longrightarrow> nf_color s' = nf_color s + n * W) \<and> nf_indexed s' = nf_indexed s + n * W"
proof (rule for_loop_partial [where P = "\<lambda>y t. (\<not> vita \<longrightarrow> nf_color t = nf_color s + y * W) \<and>
      nf_indexed t = nf_indexed s + y * W", OF run _ n])
  show "(\<not> vita \<longrightarrow> nf_color s = nf_color s + 0 * W) \<and> nf_indexed s = nf_indexed s + 0 * W"
    by simp
next
  fix y t t'
  assume inv: "(\<not> vita \<longrightarrow> nf_color t = nf_color s + y * W) \<and> nf_indexed t = nf_indexed s + y * W"
    and step: "NF_row W vita pal fb firstRow y t = Inr t'"
  from NF_row_partial [OF step W] inv
  show "(\<not> vita \<longrightarrow> nf_color t' = nf_color s + (y + 1) * W) \<and> nf_indexed t' = nf_indexed s + (y + 1) * W"
    by (simp add: distrib_right)
qed

lemma NF_single_rows:
  assumes W: "0 \<le> W"
  shows "IndexedFramebufferToColor_NoFilter W vita pal fb cm firstRow (int n) =
         single_rows (\<lambda>cm' r k. IndexedFramebufferToColor_NoFilter W vita pal fb cm' r k) firstRow n cm"
proof (induction n)
  case 0
  show ?case
    by (simp add: IndexedFramebufferToColor_NoFilter_def Let_def for_loop_done)
next
  case (Suc n)
  define s0 where "s0 = \<lparr>nf_color = (if vita then 0 else firstRow * W), nf_indexed = firstRow * W,
                nf_mem = cm\<rparr>"
  define body where "body = NF_row W vita pal fb firstRow"
  have call: "\<And>k. IndexedFramebufferToColor_NoFilter W vita pal fb cm firstRow k =
      ebind (for_loop 0 k body s0) (\<lambda>s. Inr (nf_mem s))"
    by (simp add: IndexedFramebufferToColor_NoFilter_def Let_def s0_def body_def)
  have snoc: "for_loop 0 (int (Suc n)) body s0 = ebind (for_loop 0 (int n) body s0) (body (int n))"
    using for_loop_snoc [of 0 "int n" body s0] by (simp add: add.commute)
  have ih: "single_rows (\<lambda>cm' r k. IndexedFramebufferToColor_NoFilter W vita pal fb cm' r k) firstRow n cm =
      ebind (for_loop 0 (int n) body s0) (\<lambda>s. Inr (nf_mem s))"
    using Suc.IH by (simp add: call)
  show ?case
  proof (cases "for_loop 0 (int n) body s0")
    case (Inl e)
    then show ?thesis
      by (simp add: call snoc ih del: of_nat_Suc)
  next
    case (Inr s)
    from NF_rows_partial [OF Inr [unfolded body_def] _ W]
    have p: "\<not> vita \<longrightarrow> nf_color s = nf_color s0 + int n * W" "nf_indexed s = nf_indexed s0 + int n * W"
      by simp_all
    define s1 where "s1 = \<lparr>nf_color = (if vita then 0 else (firstRow + int n) * W),
        nf_indexed = (firstRow + int n) * W, nf_mem = nf_mem s\<rparr>"
    have row: "NF_row W vita pal fb (firstRow + int n) 0 s1 = body (int n) s"
    proof (cases vita)
      case True
      have "s1\<lparr>nf_color := (firstRow + int n + 0) * 1024\<rparr> = s\<lparr>nf_color := (firstRow + int n) * 1024\<rparr>"
        using p(2) by (simp add: s1_def s0_def distrib_right)
      with True show ?thesis by (simp add: NF_row_def body_def)
    next
      case False
      with p have "s1 = s"
        by (simp add: s1_def s0_def distrib_right)
      with False show ?thesis by (simp add: NF_row_def body_def)
    qed
    have "IndexedFramebufferToColor_NoFilter W vita pal fb (nf_mem s) (firstRow + int n) 1 =
          ebind (body (int n) s) (\<lambda>s'. Inr (nf_mem s'))"
      by (simp add: IndexedFramebufferToColor_NoFilter_def Let_def for_loop_one
          s1_def [symmetric] row)
    with Inr show ?thesis
      by (simp add: call snoc ih del: of_nat_Suc)
  qed
qed

lemma rd8_in: "0 \<le> i \<Longrightarrow> i < int (length a) \<Longrightarrow> rd8 a i = Inr (a ! nat i)"
  by (simp add: rd8_def)

lemma wr8_in: "0 \<le> i \<Longrightarrow> i < int (length a) \<Longrightarrow> wr8 a i v = Inr (a[nat i := v])"
  by (simp add: wr8_def)

lemma zero_prefix_step:
  assumes "n < length f"
  shows "(replicate n 0 @ drop n f)[n := 0] = replicate (Suc n) (0::8 word) @ drop (Suc n) f"
  using assms
  by (intro nth_equalityI) (auto simp: nth_append nth_list_update less_Suc_eq simp del: replicate_Suc)

lemma zero_prefix_keep:
  assumes "n < length f" and "f ! n = 0"
  shows "replicate n 0 @ drop n f = replicate (Suc n) (0::8 word) @ drop (Suc n) f"
  using assms
  by (intro nth_equalityI) (auto simp: nth_append less_Suc_eq simp del: replicate_Suc)

lemma Q_cols_step:
  assumes inv: "Q_cols W pal blend fb t x s" and x: "x < W - 1"
    and ip: "0 \<le> indexed t" "indexed t + W \<le> int (length fb)"
    and fl: "W \<le> int (length (smearFlags t))"
  shows "\<exists>s'. FC_pixel pal blend fb x s = Inr s' \<and> Q_cols W pal blend fb t (x + 1) s'"
proof -
  from inv have x0: "0 \<le> x" and c: "color s = color t + x" and i: "indexed s = indexed t + x"
    and fs: "smearFlags s = replicate (nat x) 0 @ drop (nat x) (smearFlags t)"
    and m: "mem s = (\<lambda>a. if color t \<le> a \<and> a < color t + x
                   then filtered_pixel W pal blend fb (indexed t) (smearFlags t) (mem t a) (a - color t)
                   else mem t a)"
    unfolding Q_cols_def by blast+
  have nx: "nat x < length (smearFlags t)" using x0 x fl by linarith
  have len: "length (smearFlags s) = length (smearFlags t)" using nx by (simp add: fs)
  have flag: "rd8 (smearFlags s) x = Inr (smearFlags t ! nat x)"
    using x0 nx len by (simp add: rd8_in fs nth_append)
  have r0: "rd8 fb (indexed s) = Inr (fb ! nat (indexed t + x))"
    using x0 x ip by (simp add: rd8_in i)
  have r1: "rd8 fb (indexed s + 1) = Inr (fb ! nat (indexed t + x + 1))"
    using x0 x ip by (simp add: rd8_in i)
  have w: "wr8 (smearFlags s) x 0 = Inr ((smearFlags s)[nat x := 0])"
    using x0 nx len by (simp add: wr8_in)
  have old: "mem s (color s) = mem t (color t + x)"
    by (simp add: m c)
  have nat_suc: "nat (x + 1) = Suc (nat x)" using x0 by simp
  show ?thesis
  proof (cases "smearFlags t ! nat x = 0")
    case True
    define s' where "s' = s\<lparr>mem := (mem s)(color s := finalColorsXX pal (fb ! nat (indexed t + x))),
               color := color s + 1, indexed := indexed s + 1\<rparr>"
    have run: "FC_pixel pal blend fb x s = Inr s'"
      by (simp add: FC_pixel_def flag True r0 s'_def)
    have f': "smearFlags s' = replicate (nat (x + 1)) 0 @ drop (nat (x + 1)) (smearFlags t)"
      using zero_prefix_keep [OF nx True] by (simp add: s'_def fs nat_suc del: replicate_Suc)
    have m': "mem s' = (\<lambda>a. if color t \<le> a \<and> a < color t + (x + 1)
                   then filtered_pixel W pal blend fb (indexed t) (smearFlags t) (mem t a) (a - color t)
                   else mem t a)"
      using x0 x True by (auto simp: s'_def m c filtered_pixel_def fun_eq_iff)
    have "color s' = color t + (x + 1)" "indexed s' = indexed t + (x + 1)"
      by (simp_all add: s'_def c i)
    with x0 f' m' have "Q_cols W pal blend fb t (x + 1) s'"
      unfolding Q_cols_def by simp
    with run show ?thesis by blast
  next
    case False
    define s' where "s' = s\<lparr>mem := (mem s)(color s := blend (fb ! nat (indexed t + x)) (fb ! nat (indexed t + x + 1))
                                              (mem t (color t + x))),
               smearFlags := (smearFlags s)[nat x := 0],
               color := color s + 1, indexed := indexed s + 1\<rparr>"
    have run: "FC_pixel pal blend fb x s = Inr s'"
      by (simp add: FC_pixel_def flag False r0 r1 w old s'_def)
    have f': "smearFlags s' = replicate (nat (x + 1)) 0 @ drop (nat (x + 1)) (smearFlags t)"
      using zero_prefix_step [OF nx] by (simp add: s'_def fs nat_suc del: replicate_Suc)
    have m': "mem s' = (\<lambda>a. if color t \<le> a \<and> a < color t + (x + 1)
                   then filtered_pixel W pal blend fb (indexed t) (smearFlags t) (mem t a) (a - color t)
                   else mem t a)"
      using x0 x False by (auto simp: s'_def m c filtered_pixel_def fun_eq_iff)
    have "color s' = color t + (x + 1)" "indexed s' = indexed t + (x + 1)"
      by (simp_all add: s'_def c i)
    with x0 f' m' have "Q_cols W pal blend fb t (x + 1) s'"
      unfolding Q_cols_def by simp
    with run show ?thesis by blast
  qed
qed


lemma FilterDithering_Row_total:
  assumes "2 \<le> W" and "W \<le> int (length row)" and "W \<le> int (length fl)"
  shows "\<exists>g. FilterDithering_Row W row fl = Inr g \<and> length g = length fl \<and>
           drop (nat W) g = drop (nat W) fl"
proof -
  from FD_scan_I10 [OF assms] obtain s where
    s: "FD_scan W row fl = Inr s" "I10 W fl (W - 1) s"
    by blast
  from I10_commit [OF s(2) _ assms(3)] obtain g where
    "COMMIT_STRIDE (smear s) (ditherStart s) (ditherEnd s) = Inr g"
    "length g = length fl" "drop (nat W) g = drop (nat W) fl"
    by auto
  with s(1) show ?thesis by (simp add: FilterDithering_Row_def)
qed

lemma FC_row_total:
  assumes W: "2 \<le> W" and ip: "0 \<le> indexed s" "indexed s + W \<le> int (length fb)"
    and fl: "W \<le> int (length (smearFlags s))"
  shows "\<exists>g s'. FilterDithering_Row W (view fb (indexed s)) (smearFlags s) = Inr g \<and>
           length g = length (smearFlags s) \<and>
           FC_row W vita pal blend fb firstRow y s = Inr s' \<and>
           color s' = (if vita then (firstRow + y) * 1024 else color s) + W \<and>
           indexed s' = indexed s + W \<and>
           smearFlags s' = replicate (nat (W - 1)) 0 @ drop (nat (W - 1)) g \<and>
           mem s' = (\<lambda>a. if (if vita then (firstRow + y) * 1024 else color s) \<le> a \<and>
                            a < (if vita then (firstRow + y) * 1024 else color s) + W
                         then filtered_pixel W pal blend fb (indexed s) g (mem s a)
                                (a - (if vita then (firstRow + y) * 1024 else color s))
                         else mem s a)"
proof -
  define c where "c = (if vita then (firstRow + y) * 1024 else color s)"
  define t0 where "t0 = (if vita then s\<lparr>color := (firstRow + y) * 1024\<rparr> else s)"
  have t0: "color t0 = c" "indexed t0 = indexed s" "smearFlags t0 = smearFlags s" "mem t0 = mem s"
    by (simp_all add: t0_def c_def)
  have "W \<le> int (length (view fb (indexed s)))"
    using ip by (simp add: view_def)
  from FilterDithering_Row_total [OF W this fl] obtain g where
    g: "FilterDithering_Row W (view fb (indexed s)) (smearFlags s) = Inr g"
      "length g = length (smearFlags s)"
    by blast
  define t where "t = t0\<lparr>smearFlags := g\<rparr>"
  have t: "color t = c" "indexed t = indexed s" "smearFlags t = g" "mem t = mem s"
    by (simp_all add: t_def t0)
  have "\<exists>s1. for_loop 0 (W - 1) (FC_pixel pal blend fb) t = Inr s1 \<and> Q_cols W pal blend fb t (W - 1) s1"
  proof (rule for_loop_rule [where P = "Q_cols W pal blend fb t"])
    show "Q_cols W pal blend fb t 0 t" by (auto simp: Q_cols_def fun_eq_iff)
    show "0 \<le> W - 1" using W by simp
  next
    fix x u assume "Q_cols W pal blend fb t x u" "x < W - 1"
    then show "\<exists>s'. FC_pixel pal blend fb x u = Inr s' \<and> Q_cols W pal blend fb t (x + 1) s'"
      using ip fl g(2) by (intro Q_cols_step) (simp_all add: t)
  qed
  then obtain s1 where s1: "for_loop 0 (W - 1) (FC_pixel pal blend fb) t = Inr s1"
    and q: "Q_cols W pal blend fb t (W - 1) s1"
    by blast
  from q have q': "color s1 = c + (W - 1)" "indexed s1 = indexed s + (W - 1)"
    "smearFlags s1 = replicate (nat (W - 1)) 0 @ drop (nat (W - 1)) g"
    "mem s1 = (\<lambda>a. if c \<le> a \<and> a < c + (W - 1)
                   then filtered_pixel W pal blend fb (indexed s) g (mem s a) (a - c)
                   else mem s a)"
    unfolding Q_cols_def t by blast+
  have last: "rd8 fb (indexed s1) = Inr (fb ! nat (indexed s + (W - 1)))"
    using W ip by (simp add: rd8_in q'(2))
  define s' where "s' = s1\<lparr>mem := (mem s1)(color s1 := finalColorsXX pal (fb ! nat (indexed s + (W - 1)))),
                 color := color s1 + 1, indexed := indexed s1 + 1\<rparr>"
  have run: "FC_row W vita pal blend fb firstRow y s = Inr s'"
    using g(1) s1 last
    by (simp add: FC_row_def Let_def t0_def [symmetric] t0 t_def [symmetric] s'_def)
  have m': "mem s' = (\<lambda>a. if c \<le> a \<and> a < c + W
                         then filtered_pixel W pal blend fb (indexed s) g (mem s a) (a - c)
                         else mem s a)"
    using W by (auto simp: s'_def q' filtered_pixel_def fun_eq_iff)
  have "color s' = c + W" "indexed s' = indexed s + W"
    "smearFlags s' = replicate (nat (W - 1)) 0 @ drop (nat (W - 1)) g"
    by (simp_all add: s'_def q')
  with g run m' show ?thesis
    unfolding c_def by blast
qed

lemma uint8_lt_256: "uint (a :: 8 word) < 256"
  using uint_bounded [of a] by simp

lemma mix8_floor: "uint (mix8 a b) = (uint a + uint b) div 2"
proof -
  have "0 \<le> (uint a + uint b) div 2" "(uint a + uint b) div 2 < 65536"
    using uint8_lt_256 [of a] uint8_lt_256 [of b] uint_ge_0 [of a] uint_ge_0 [of b] by linarith+
  then show ?thesis
    by (simp add: mix8_def drop_bit_eq_div uint_word_of_int take_bit_int_eq_self unsigned_of_int)
qed

lemma mix8_ucast: "uint (ucast (mix8 a b) :: 8 word) = (uint a + uint b) div 2"
proof -
  have "0 \<le> (uint a + uint b) div 2" "(uint a + uint b) div 2 < 256"
    using uint8_lt_256 [of a] uint8_lt_256 [of b] uint_ge_0 [of a] uint_ge_0 [of b] by linarith+
  then show ?thesis
    by (simp add: mix8_floor unsigned_ucast_eq take_bit_int_eq_self)
qed

lemma byte_update:
  fixes v :: "32 word" and b :: "8 word"
  assumes "sh + 8 \<le> 32" and "sh' + 8 \<le> 32" and "sh = sh' \<or> sh + 8 \<le> sh' \<or> sh' + 8 \<le> sh"
  shows "(ucast (drop_bit sh' ((v AND NOT (push_bit sh (mask 8))) OR push_bit sh (ucast b))) :: 8 word) =
         (if sh = sh' then b else ucast (drop_bit sh' v))"
proof -
  have hi: "\<not> bit b k" if "8 \<le> k" for k
    using that bit_imp_le_length [of b k] by auto
  show ?thesis
    using assms by (auto intro!: bit_word_eqI simp: bit_simps hi)
qed

lemma mask8: "(255 :: 32 word) = mask 8"
  by (simp add: mask_eq_exp_minus_1)

lemma get_set_byte:
  assumes "i < 4" and "j < 4"
  shows "get_byte e (set_byte e v i b) j = (if i = j then b else get_byte e v j)"
proof -
  have "byte_shift e i + 8 \<le> 32" "byte_shift e j + 8 \<le> 32"
    using assms by (cases e; simp add: byte_shift_def)+
  moreover have "byte_shift e i = byte_shift e j \<or> byte_shift e i + 8 \<le> byte_shift e j \<or>
      byte_shift e j + 8 \<le> byte_shift e i"
    using assms by (cases e; simp add: byte_shift_def; linarith)
  moreover have "byte_shift e i = byte_shift e j \<longleftrightarrow> i = j"
    using assms by (cases e; simp add: byte_shift_def; linarith)
  ultimately show ?thesis
    using byte_update [of "byte_shift e i" "byte_shift e j" v b]
    by (simp add: get_byte_def set_byte_def mask8)
qed

lemma channel_top_bytes:
  "get_byte e v (RI e) = ucast (drop_bit 24 v)"
  "get_byte e v (GI e) = ucast (drop_bit 16 v)"
  "get_byte e v (BI e) = ucast (drop_bit 8 v)"
  "get_byte e v (AI e) = ucast v"
  by (cases e; simp add: get_byte_def byte_shift_def RI_def GI_def BI_def AI_def)+

lemma blend32_bytes:
  "get_byte e (blend32 e l r old) (RI e) = ucast (rmix8 e l r)"
  "get_byte e (blend32 e l r old) (GI e) = ucast (gmix8 e l r)"
  "get_byte e (blend32 e l r old) (BI e) = ucast (bmix8 e l r)"
  "get_byte e (blend32 e l r old) (AI e) = get_byte e old (AI e)"
  by (cases e; simp add: blend32_def get_set_byte RI_def GI_def BI_def AI_def)+

lemma mix8_bit: "bit (mix8 a b) n \<Longrightarrow> n < 8"
proof (rule ccontr)
  assume b: "bit (mix8 a b) n" and "\<not> n < 8"
  then have "8 \<le> n" by simp
  have "uint (mix8 a b) < 2 ^ 8"
    using uint8_lt_256 [of a] uint8_lt_256 [of b] uint_ge_0 [of a] uint_ge_0 [of b]
    by (simp add: mix8_floor)
  then have "take_bit 8 (uint (mix8 a b)) = uint (mix8 a b)"
    by (simp add: take_bit_int_eq_self)
  then have "bit (uint (mix8 a b)) n \<longleftrightarrow> bit (take_bit 8 (uint (mix8 a b))) n" by simp
  with b \<open>8 \<le> n\<close> show False by (simp add: bit_simps)
qed

lemma blend16_fields:
  "drop_bit 11 (blend16 e l r old) = drop_bit 3 (rmix8 e l r)"
  "take_bit 6 (drop_bit 5 (blend16 e l r old)) = drop_bit 2 (gmix8 e l r)"
  "take_bit 5 (blend16 e l r old) = drop_bit 3 (bmix8 e l r)"
  unfolding blend16_def rmix8_def gmix8_def bmix8_def
  by (rule bit_word_eqI; auto simp: bit_simps dest: mix8_bit)+

lemma row_bound:
  assumes "0 \<le> y" and "y < numRows" and "(firstRow + numRows) * W \<le> L" and "0 \<le> (W::int)"
  shows "(firstRow + y) * W + W \<le> L"
proof -
  have "(firstRow + y) * W + W = (firstRow + y + 1) * W" by (simp add: distrib_right)
  also have "\<dots> \<le> (firstRow + numRows) * W"
    using assms by (intro mult_right_mono) simp_all
  finally show ?thesis using assms(3) by simp
qed

lemma row_nonneg: "0 \<le> firstRow \<Longrightarrow> 0 \<le> y \<Longrightarrow> 0 \<le> (W::int) \<Longrightarrow> 0 \<le> (firstRow + y) * W"
  by simp

lemma FC_rows_flags:
  fixes s0 :: "'c fc_state"
  assumes W: "2 \<le> W" and fr: "0 \<le> firstRow" and n: "1 \<le> numRows"
    and fb: "(firstRow + numRows) * W \<le> int (length fb)"
    and i0: "indexed s0 = firstRow * W" and fl: "W \<le> int (length (smearFlags s0))"
  shows "\<exists>s'. for_loop 0 numRows (FC_row W vita pal blend fb firstRow) s0 = Inr s' \<and>
           length (smearFlags s') = length (smearFlags s0) \<and>
           take (nat (W - 1)) (smearFlags s') = replicate (nat (W - 1)) 0"
proof -
  define R where "R = (\<lambda>y (s :: 'c fc_state). 0 \<le> y \<and> indexed s = (firstRow + y) * W \<and>
      length (smearFlags s) = length (smearFlags s0) \<and>
      (0 < y \<longrightarrow> take (nat (W - 1)) (smearFlags s) = replicate (nat (W - 1)) 0))"
  have "\<exists>s'. for_loop 0 numRows (FC_row W vita pal blend fb firstRow) s0 = Inr s' \<and> R numRows s'"
  proof (rule for_loop_rule [where P = R])
    show "R 0 s0" by (simp add: R_def i0)
    show "0 \<le> numRows" using n by simp
  next
    fix y s assume r: "R y s" and y: "y < numRows"
    from r have y0: "0 \<le> y" and i: "indexed s = (firstRow + y) * W"
      and len: "length (smearFlags s) = length (smearFlags s0)"
      unfolding R_def by blast+
    have b1: "0 \<le> indexed s" using fr y0 W by (simp add: i)
    have b2: "indexed s + W \<le> int (length fb)"
      unfolding i using y0 y fb W by (intro row_bound) simp_all
    have b3: "W \<le> int (length (smearFlags s))" using fl len by simp
    from FC_row_total [OF W b1 b2 b3, where vita = vita and firstRow = firstRow and y = y
        and pal = pal and blend = blend] obtain g s' where
      g: "length g = length (smearFlags s)"
      and run: "FC_row W vita pal blend fb firstRow y s = Inr s'"
      and i': "indexed s' = indexed s + W"
      and f': "smearFlags s' = replicate (nat (W - 1)) 0 @ drop (nat (W - 1)) g"
      by blast
    have "nat (W - 1) \<le> length g" using b3 g by linarith
    then have "length (smearFlags s') = length g" "take (nat (W - 1)) (smearFlags s') = replicate (nat (W - 1)) 0"
      by (simp_all add: f')
    with y0 i' i g len have "R (y + 1) s'"
      by (simp add: R_def distrib_right)
    with run show "\<exists>s'. FC_row W vita pal blend fb firstRow y s = Inr s' \<and> R (y + 1) s'" by blast
  qed
  then show ?thesis using n by (auto simp: R_def)
qed

lemma view_length: "0 \<le> p \<Longrightarrow> p + n \<le> int (length a) \<Longrightarrow> n \<le> int (length (view a p))"
  by (simp add: view_def)

lemma unview_length:
  "0 \<le> p \<Longrightarrow> p \<le> int (length a) \<Longrightarrow> length v = length (view a p) \<Longrightarrow> length (unview a p v) = length a"
  by (simp add: view_def unview_def)

lemma thread_bound:
  assumes "0 \<le> threadNum" and "(threadNum + 1) * W \<le> L" and "0 \<le> (W::int)"
  shows "0 \<le> threadNum * W" and "threadNum * W + W \<le> L" and "threadNum * W \<le> L"
  using assms by (simp_all add: distrib_right)

lemma COMMIT_STRIDE_pointwise:
  assumes c1: "COMMIT_STRIDE f1 a b = Inr g1" and c2: "COMMIT_STRIDE f2 a b = Inr g2"
    and b: "0 \<le> a" "b < int (length f1)" "b < int (length f2)"
    and i: "i < length f1" "i < length f2" and eq: "f1 ! i = f2 ! i"
  shows "g1 ! i = g2 ! i"
  using COMMIT_STRIDE_ok [OF b(1,2)] COMMIT_STRIDE_ok [OF b(1,3)] c1 c2 i eq by auto

lemma R_flags_step:
  assumes r: "R_flags W f1 f2 i x s t" and x: "x < W - 1"
    and lenr: "W \<le> int (length row)" and l1: "W \<le> int (length f1)" and l2: "W \<le> int (length f2)"
    and i: "int i < W"
  shows "\<exists>s' t'. FD_step row x s = Inr s' \<and> FD_step row x t = Inr t' \<and> R_flags W f1 f2 i (x + 1) s' t'"
proof -
  from r have i1: "I10 W f1 x s" and i2: "I10 W f2 x t"
    and ctl: "prev s = prev t" "me s = me t" "ditherStart s = ditherStart t" "ditherEnd s = ditherEnd t"
    and eq: "smear s ! i = smear t ! i"
    unfolding R_flags_def by blast+
  from i1 have x0: "0 \<le> x" and ds: "0 \<le> ditherStart s"
    and de: "ditherEnd s = -1 \<or> ditherStart s + 2 \<le> ditherEnd s \<and> ditherEnd s \<le> x"
    and sl: "length (smear s) = length f1"
    unfolding I10_def by blast+
  from i2 have tl: "length (smear t) = length f2" unfolding I10_def by blast
  have b1: "ditherEnd s < int (length (smear s))" using de x l1 sl by auto
  have b2: "ditherEnd s < int (length (smear t))" using de x l2 tl by auto
  have ii: "i < length (smear s)" "i < length (smear t)" using i l1 l2 sl tl by linarith+
  from I10_step [OF i1 x lenr l1] obtain s' where s': "FD_step row x s = Inr s'" "I10 W f1 (x + 1) s'"
    by blast
  from I10_step [OF i2 x lenr l2] obtain t' where t': "FD_step row x t = Inr t'" "I10 W f2 (x + 1) t'"
    by blast
  define nxt where "nxt = uint (row ! nat (x + 1))"
  have rd: "rd row (x + 1) = Inr nxt"
    unfolding nxt_def using x0 x lenr by (intro rd_in) simp_all
  have "prev s' = prev t' \<and> me s' = me t' \<and> ditherStart s' = ditherStart t' \<and>
      ditherEnd s' = ditherEnd t' \<and> smear s' ! i = smear t' ! i"
    using rd s'(1)
  proof (cases rule: FD_step_cases)
    case (commit g)
    from rd t'(1) show ?thesis
    proof (cases rule: FD_step_cases)
      case (commit h)
      have "g ! i = h ! i"
        using commit(2) \<open>COMMIT_STRIDE (smear s) (ditherStart s) (ditherEnd s) = Inr g\<close>
        by (intro COMMIT_STRIDE_pointwise [OF _ _ ds b1 b2 ii eq]) (simp_all add: ctl)
      then show ?thesis
        using \<open>s' = s\<lparr>prev := me s, me := nxt, ditherEnd := - 1, smear := g\<rparr>\<close> commit(3) ctl
        by simp
    next
      case middle
      with \<open>me s = nxt \<or> me s = prev s \<or> prev s \<noteq> nxt \<and> x \<noteq> ditherEnd s\<close> ctl show ?thesis by auto
    next
      case keep
      with \<open>me s = nxt \<or> me s = prev s \<or> prev s \<noteq> nxt \<and> x \<noteq> ditherEnd s\<close> ctl show ?thesis by auto
    qed
  next
    case middle
    note m1 = middle
    from rd t'(1) show ?thesis
    proof (cases rule: FD_step_cases)
      case (commit h)
      with m1 ctl show ?thesis by auto
    next
      case middle
      with m1 ctl eq show ?thesis by simp
    next
      case keep
      with m1 ctl show ?thesis by auto
    qed
  next
    case keep
    note k1 = keep
    from rd t'(1) show ?thesis
    proof (cases rule: FD_step_cases)
      case (commit h)
      with k1 ctl show ?thesis by auto
    next
      case middle
      with k1 ctl show ?thesis by auto
    next
      case keep
      with k1 ctl eq show ?thesis by simp
    qed
  qed
  with s' t' show ?thesis unfolding R_flags_def by blast
qed

lemma FD_scan_two_runs:
  assumes W: "2 \<le> W" and lenr: "W \<le> int (length row)"
    and l1: "W \<le> int (length f1)" and l2: "W \<le> int (length f2)"
    and i: "int i < W" and eq: "f1 ! i = f2 ! i"
  shows "\<exists>s t. FD_scan W row f1 = Inr s \<and> FD_scan W row f2 = Inr t \<and>
           ditherStart s = ditherStart t \<and> ditherEnd s = ditherEnd t"
proof -
  note r0 = rd_first_two(1) [OF W lenr] and r1 = rd_first_two(2) [OF W lenr]
  define m0 where "m0 = uint (row ! 0)"
  have "\<exists>s t. for_loop 0 (W - 1) (FD_step row) (FD_init m0 f1) = Inr s \<and>
      for_loop 0 (W - 1) (FD_step row) (FD_init m0 f2) = Inr t \<and> R_flags W f1 f2 i (W - 1) s t"
  proof (rule for_loop_rule2 [where R = "R_flags W f1 f2 i"])
    show "R_flags W f1 f2 i 0 (FD_init m0 f1) (FD_init m0 f2)"
      unfolding R_flags_def using I10_init [of W f1 m0] I10_init [of W f2 m0] eq
      by (simp add: FD_init_def)
    show "0 \<le> W - 1" using W by simp
  next
    fix x s t assume "R_flags W f1 f2 i x s t" "x < W - 1"
    then show "\<exists>s' t'. FD_step row x s = Inr s' \<and> FD_step row x t = Inr t' \<and>
        R_flags W f1 f2 i (x + 1) s' t'"
      using lenr l1 l2 i by (rule R_flags_step)
  qed
  then show ?thesis
    by (auto simp: FD_scan_def FD_loop_def r0 r1 m0_def R_flags_def)
qed

lemma FD_scan_strides_any_flags:
  assumes W: "2 \<le> W" and lenr: "W \<le> int (length row)"
    and l1: "W \<le> int (length f1)" and l2: "W \<le> int (length f2)"
  shows "\<exists>s t. FD_scan W row f1 = Inr s \<and> FD_scan W row f2 = Inr t \<and>
           ditherStart s = ditherStart t \<and> ditherEnd s = ditherEnd t"
proof -
  define f3 where "f3 = f2[0 := f1 ! 0]"
  have l3: "W \<le> int (length f3)" using l2 by (simp add: f3_def)
  have "0 < length f2" using l2 W by linarith
  then have e0: "f1 ! 0 = f3 ! 0" by (simp add: f3_def)
  have e1: "f3 ! 1 = f2 ! 1" by (simp add: f3_def)
  from FD_scan_two_runs [OF W lenr l1 l3 _ e0] W obtain s u where
    a: "FD_scan W row f1 = Inr s" "FD_scan W row f3 = Inr u"
      "ditherStart s = ditherStart u" "ditherEnd s = ditherEnd u"
    by auto
  from FD_scan_two_runs [OF W lenr l3 l2 _ e1] W obtain u' t where
    b: "FD_scan W row f3 = Inr u'" "FD_scan W row f2 = Inr t"
      "ditherStart u' = ditherStart t" "ditherEnd u' = ditherEnd t"
    by auto
  from a(2) b(1) have "u' = u" by simp
  with a b show ?thesis by simp
qed

lemma FD_scan_keeps_last_flag:
  assumes W: "2 \<le> W" and lenr: "W \<le> int (length row)" and len: "W \<le> int (length f)"
  shows "\<exists>s. FD_scan W row f = Inr s \<and> I10 W f (W - 1) s \<and> smear s ! nat (W - 1) = f ! nat (W - 1)"
proof -
  note r0 = rd_first_two(1) [OF W lenr] and r1 = rd_first_two(2) [OF W lenr]
  define P where "P = (\<lambda>x s. I10 W f x s \<and> smear s ! nat (W - 1) = f ! nat (W - 1))"
  have "\<exists>s. FD_loop W row 0 (FD_init (uint (row ! 0)) f) = Inr s \<and> P (W - 1) s"
  proof (rule FD_loop_rule [where P = P])
    show "P 0 (FD_init (uint (row ! 0)) f)"
      using I10_init [of W f] by (simp add: P_def FD_init_def)
    show "0 \<le> W - 1" using W by simp
  next
    fix x s assume p: "P x s" and x: "x < W - 1"
    from p have inv: "I10 W f x s" and keep: "smear s ! nat (W - 1) = f ! nat (W - 1)"
      unfolding P_def by blast+
    from inv have x0: "0 \<le> x" and ds: "0 \<le> ditherStart s" and de: "ditherEnd s \<le> x"
      and sl: "length (smear s) = length f"
      unfolding I10_def by auto
    from I10_step [OF inv x lenr len] obtain s' where
      s': "FD_step row x s = Inr s'" "I10 W f (x + 1) s'"
      by blast
    define nxt where "nxt = uint (row ! nat (x + 1))"
    have rd: "rd row (x + 1) = Inr nxt"
      unfolding nxt_def using x0 x lenr by (intro rd_in) simp_all
    have b: "ditherEnd s < int (length (smear s))" using de x len sl by simp
    have i: "nat (W - 1) < length (smear s)" using W len sl by linarith
    have out: "ditherEnd s < int (nat (W - 1))" using de x by simp
    have "smear s' ! nat (W - 1) = smear s ! nat (W - 1)"
      using rd s'(1)
    proof (cases rule: FD_step_cases)
      case (commit g)
      from COMMIT_STRIDE_outside [OF commit(2) ds b i] out have "g ! nat (W - 1) = smear s ! nat (W - 1)"
        by simp
      with commit(3) show ?thesis by simp
    next
      case middle
      then show ?thesis by simp
    next
      case keep
      then show ?thesis by simp
    qed
    with keep s' show "\<exists>s'. FD_step row x s = Inr s' \<and> P (x + 1) s'"
      unfolding P_def by simp
  qed
  then show ?thesis by (simp add: FD_scan_def r0 r1 P_def)
qed

lemma FilterDithering_Row_last_flag:
  assumes W: "2 \<le> W" and lenr: "W \<le> int (length row)" and len: "W \<le> int (length f)"
  shows "\<exists>g. FilterDithering_Row W row f = Inr g \<and> length g = length f \<and>
           g ! nat (W - 1) = (if stride_reaches_end W row then 1 else f ! nat (W - 1))"
proof -
  from FD_scan_keeps_last_flag [OF W lenr len] obtain s where
    s: "FD_scan W row f = Inr s" and inv: "I10 W f (W - 1) s"
    and keep: "smear s ! nat (W - 1) = f ! nat (W - 1)"
    by blast
  have lz: "W \<le> int (length (replicate (nat W) (0 :: 8 word)))" by simp
  from FD_scan_strides_any_flags [OF W lenr len lz] s obtain t where
    t: "FD_scan W row (replicate (nat W) 0) = Inr t"
    and ctl: "ditherStart s = ditherStart t" "ditherEnd s = ditherEnd t"
    by auto
  have reach: "stride_reaches_end W row \<longleftrightarrow> ditherEnd s = W - 1 \<and> 2 < ditherEnd s - ditherStart s"
    by (simp add: stride_reaches_end_def t ctl)
  from inv have ds: "0 \<le> ditherStart s" and de: "ditherEnd s \<le> W - 1"
    and sl: "length (smear s) = length f"
    unfolding I10_def by auto
  have b: "ditherEnd s < int (length (smear s))" using de len sl by simp
  have i: "nat (W - 1) < length (smear s)" using W len sl by linarith
  from COMMIT_STRIDE_ok [OF ds b] obtain g where
    g: "COMMIT_STRIDE (smear s) (ditherStart s) (ditherEnd s) = Inr g" "length g = length (smear s)"
      "\<forall>i<length (smear s). g ! i = (if 2 < ditherEnd s - ditherStart s \<and> ditherStart s \<le> int i \<and> int i \<le> ditherEnd s then 1 else smear s ! i)"
    by blast
  from g(3) [rule_format, OF i] have
    "g ! nat (W - 1) = (if 2 < ditherEnd s - ditherStart s \<and> ditherStart s \<le> int (nat (W - 1)) \<and>
        int (nat (W - 1)) \<le> ditherEnd s then 1 else smear s ! nat (W - 1))" .
  moreover have "(2 < ditherEnd s - ditherStart s \<and> ditherStart s \<le> int (nat (W - 1)) \<and>
        int (nat (W - 1)) \<le> ditherEnd s) \<longleftrightarrow> stride_reaches_end W row"
    unfolding reach using W de by auto
  ultimately have "g ! nat (W - 1) = (if stride_reaches_end W row then 1 else f ! nat (W - 1))"
    by (simp add: keep)
  with s g(1,2) sl show ?thesis by (simp add: FilterDithering_Row_def)
qed

lemma FC_rows_last_flag:
  fixes s0 :: "'c fc_state"
  assumes W: "2 \<le> W" and fr: "0 \<le> firstRow" and n: "1 \<le> numRows"
    and fb: "(firstRow + numRows) * W \<le> int (length fb)"
    and i0: "indexed s0 = firstRow * W" and fl: "W \<le> int (length (smearFlags s0))"
  shows "\<exists>s'. for_loop 0 numRows (FC_row W vita pal blend fb firstRow) s0 = Inr s' \<and>
           smearFlags s' ! nat (W - 1) =
             (if \<exists>y. 0 \<le> y \<and> y < numRows \<and> stride_reaches_end W (view fb ((firstRow + y) * W))
              then 1 else smearFlags s0 ! nat (W - 1))"
proof -
  define R where "R = (\<lambda>y (s :: 'c fc_state). 0 \<le> y \<and> indexed s = (firstRow + y) * W \<and>
      length (smearFlags s) = length (smearFlags s0) \<and>
      smearFlags s ! nat (W - 1) =
        (if \<exists>y'. 0 \<le> y' \<and> y' < y \<and> stride_reaches_end W (view fb ((firstRow + y') * W))
         then 1 else smearFlags s0 ! nat (W - 1)))"
  have "\<exists>s'. for_loop 0 numRows (FC_row W vita pal blend fb firstRow) s0 = Inr s' \<and> R numRows s'"
  proof (rule for_loop_rule [where P = R])
    show "R 0 s0" by (auto simp: R_def i0)
    show "0 \<le> numRows" using n by simp
  next
    fix y s assume r: "R y s" and y: "y < numRows"
    from r have y0: "0 \<le> y" and i: "indexed s = (firstRow + y) * W"
      and len: "length (smearFlags s) = length (smearFlags s0)"
      and last: "smearFlags s ! nat (W - 1) =
        (if \<exists>y'. 0 \<le> y' \<and> y' < y \<and> stride_reaches_end W (view fb ((firstRow + y') * W))
         then 1 else smearFlags s0 ! nat (W - 1))"
      unfolding R_def by blast+
    have b1: "0 \<le> indexed s" using fr y0 W by (simp add: i)
    have b2: "indexed s + W \<le> int (length fb)"
      unfolding i using y0 y fb W by (intro row_bound) simp_all
    have b3: "W \<le> int (length (smearFlags s))" using fl len by simp
    from FC_row_total [OF W b1 b2 b3, where vita = vita and firstRow = firstRow and y = y
        and pal = pal and blend = blend] obtain g s' where
      g: "FilterDithering_Row W (view fb (indexed s)) (smearFlags s) = Inr g"
        "length g = length (smearFlags s)"
      and run: "FC_row W vita pal blend fb firstRow y s = Inr s'"
      and i': "indexed s' = indexed s + W"
      and f': "smearFlags s' = replicate (nat (W - 1)) 0 @ drop (nat (W - 1)) g"
      by blast
    have lr: "W \<le> int (length (view fb (indexed s)))" using b1 b2 by (intro view_length) simp_all
    from FilterDithering_Row_last_flag [OF W lr b3] g(1) have
      gl: "g ! nat (W - 1) = (if stride_reaches_end W (view fb (indexed s)) then 1
                              else smearFlags s ! nat (W - 1))"
      by auto
    have le: "nat (W - 1) < length g" using b3 g(2) W by linarith
    then have nth: "smearFlags s' ! nat (W - 1) = g ! nat (W - 1)"
      by (simp add: f' nth_append)
    have ex: "(\<exists>y'. 0 \<le> y' \<and> y' < y + 1 \<and> stride_reaches_end W (view fb ((firstRow + y') * W))) \<longleftrightarrow>
        stride_reaches_end W (view fb ((firstRow + y) * W)) \<or>
        (\<exists>y'. 0 \<le> y' \<and> y' < y \<and> stride_reaches_end W (view fb ((firstRow + y') * W)))"
    proof
      assume "\<exists>y'. 0 \<le> y' \<and> y' < y + 1 \<and> stride_reaches_end W (view fb ((firstRow + y') * W))"
      then obtain y' where y': "0 \<le> y'" "y' < y + 1" "stride_reaches_end W (view fb ((firstRow + y') * W))"
        by blast
      show "stride_reaches_end W (view fb ((firstRow + y) * W)) \<or>
        (\<exists>y'. 0 \<le> y' \<and> y' < y \<and> stride_reaches_end W (view fb ((firstRow + y') * W)))"
      proof (cases "y' = y")
        case True
        with y'(3) show ?thesis by simp
      next
        case False
        with y'(2) have "y' < y" by simp
        with y'(1,3) show ?thesis by blast
      qed
    next
      assume "stride_reaches_end W (view fb ((firstRow + y) * W)) \<or>
        (\<exists>y'. 0 \<le> y' \<and> y' < y \<and> stride_reaches_end W (view fb ((firstRow + y') * W)))"
      then show "\<exists>y'. 0 \<le> y' \<and> y' < y + 1 \<and> stride_reaches_end W (view fb ((firstRow + y') * W))"
      proof
        assume "stride_reaches_end W (view fb ((firstRow + y) * W))"
        with y0 show ?thesis by (intro exI [where x = y]) simp
      next
        assume "\<exists>y'. 0 \<le> y' \<and> y' < y \<and> stride_reaches_end W (view fb ((firstRow + y') * W))"
        then obtain y' where "0 \<le> y'" "y' < y" "stride_reaches_end W (view fb ((firstRow + y') * W))"
          by blast
        then show ?thesis by (intro exI [where x = y']) simp
      qed
    qed
    have "smearFlags s' ! nat (W - 1) =
        (if \<exists>y'. 0 \<le> y' \<and> y' < y + 1 \<and> stride_reaches_end W (view fb ((firstRow + y') * W))
         then 1 else smearFlags s0 ! nat (W - 1))"
      unfolding nth gl last ex i by auto
    moreover have "length (smearFlags s') = length (smearFlags s0)"
      using le g(2) len by (simp add: f')
    ultimately have "R (y + 1) s'"
      using y0 i' i by (simp add: R_def distrib_right)
    with run show "\<exists>s'. FC_row W vita pal blend fb firstRow y s = Inr s' \<and> R (y + 1) s'" by blast
  qed
  then show ?thesis by (auto simp: R_def)
qed

text \<open>
  Claim C4 (as amended). After a filtered conversion of at least one row, the flags of the
  calling thread are clear at the columns \<open>0 .. VISIBLE_WIDTH-2\<close>. The flag of the last
  column \<open>VISIBLE_WIDTH-1\<close> is never cleared: after the call it is set to 1 if in one of the
  converted rows a committed stride reached the end of the row, and it is what it was before
  the call otherwise.
\<close>

theorem flags_cleared_up_to_last:
  assumes "2 \<le> W" and "0 \<le> firstRow" and "1 \<le> numRows"
    and "(firstRow + numRows) * W \<le> int (length gIndexedFramebuffer)"
    and "0 \<le> threadNum" and "(threadNum + 1) * W \<le> int (length gRowDitherStrides)"
  shows "\<exists>m g. IndexedFramebufferToColor_FilterDithering W vita pal blend gIndexedFramebuffer
                  (colormem, gRowDitherStrides) threadNum firstRow numRows = Inr (m, g) \<and>
               length g = length gRowDitherStrides \<and>
               take (nat (W - 1)) (view g (threadNum * W)) = replicate (nat (W - 1)) 0 \<and>
               view g (threadNum * W) ! nat (W - 1) =
                 (if \<exists>y. 0 \<le> y \<and> y < numRows \<and>
                         stride_reaches_end W (view gIndexedFramebuffer ((firstRow + y) * W))
                  then 1 else view gRowDitherStrides (threadNum * W) ! nat (W - 1))"
proof -
  define base where "base = threadNum * W"
  have base: "0 \<le> base" "base + W \<le> int (length gRowDitherStrides)"
    "base \<le> int (length gRowDitherStrides)"
    unfolding base_def using thread_bound [OF assms(5,6)] assms(1) by simp_all
  define s0 where "s0 = \<lparr>color = (if vita then 0 else firstRow * W), indexed = firstRow * W,
      mem = colormem, smearFlags = view gRowDitherStrides base\<rparr>"
  have l0: "W \<le> int (length (smearFlags s0))"
    using view_length [OF base(1,2)] by (simp add: s0_def)
  from FC_rows_flags [OF assms(1-4) _ l0, of vita pal blend] obtain s' where
    run: "for_loop 0 numRows (FC_row W vita pal blend gIndexedFramebuffer firstRow) s0 = Inr s'"
    and len: "length (smearFlags s') = length (view gRowDitherStrides base)"
    and clr: "take (nat (W - 1)) (smearFlags s') = replicate (nat (W - 1)) 0"
    by (auto simp: s0_def)
  from FC_rows_last_flag [OF assms(1-4) _ l0, of vita pal blend] run have
    last: "smearFlags s' ! nat (W - 1) =
      (if \<exists>y. 0 \<le> y \<and> y < numRows \<and>
              stride_reaches_end W (view gIndexedFramebuffer ((firstRow + y) * W))
       then 1 else view gRowDitherStrides base ! nat (W - 1))"
    by (auto simp: s0_def)
  have "IndexedFramebufferToColor_FilterDithering W vita pal blend gIndexedFramebuffer
          (colormem, gRowDitherStrides) threadNum firstRow numRows =
        Inr (mem s', unview gRowDitherStrides base (smearFlags s'))"
    using run by (simp add: IndexedFramebufferToColor_FilterDithering_def Let_def
        base_def [symmetric] s0_def [symmetric])
  moreover have "length (unview gRowDitherStrides base (smearFlags s')) = length gRowDitherStrides"
    using base len by (intro unview_length) simp_all
  moreover have "view (unview gRowDitherStrides base (smearFlags s')) base = smearFlags s'"
    by (rule view_unview [OF len])
  ultimately show ?thesis
    using clr last unfolding base_def by auto
qed

lemma FC_call_one_row:
  assumes W: "2 \<le> W" and fr: "0 \<le> firstRow" and fb: "(firstRow + 1) * W \<le> int (length fb)"
    and tn: "0 \<le> threadNum" and gf: "(threadNum + 1) * W \<le> int (length gf)"
  shows "\<exists>g. FilterDithering_Row W (view fb (firstRow * W)) (view gf (threadNum * W)) = Inr g \<and>
           length g = length (view gf (threadNum * W)) \<and>
           IndexedFramebufferToColor_FilterDithering W vita pal blend fb (cm, gf) threadNum firstRow 1 =
             Inr (\<lambda>a. if (if vita then firstRow * 1024 else firstRow * W) \<le> a \<and>
                            a < (if vita then firstRow * 1024 else firstRow * W) + W
                         then filtered_pixel W pal blend fb (firstRow * W) g (cm a)
                                (a - (if vita then firstRow * 1024 else firstRow * W))
                         else cm a,
                  unview gf (threadNum * W) (replicate (nat (W - 1)) 0 @ drop (nat (W - 1)) g))"
proof -
  define base where "base = threadNum * W"
  have base: "0 \<le> base" "base + W \<le> int (length gf)"
    unfolding base_def using thread_bound [OF tn gf] W by simp_all
  define s0 where "s0 = \<lparr>color = (if vita then 0 else firstRow * W), indexed = firstRow * W,
      mem = cm, smearFlags = view gf base\<rparr>"
  have s0f: "color s0 = (if vita then 0 else firstRow * W)" "indexed s0 = firstRow * W"
    "mem s0 = cm" "smearFlags s0 = view gf base"
    by (simp_all add: s0_def)
  have b1: "0 \<le> indexed s0" using fr W by (simp add: s0_def)
  have b2: "indexed s0 + W \<le> int (length fb)" using fb by (simp add: s0_def distrib_right)
  have b3: "W \<le> int (length (smearFlags s0))"
    using view_length [OF base] by (simp add: s0_def)
  from FC_row_total [OF W b1 b2 b3, where vita = vita and firstRow = firstRow and y = 0
      and pal = pal and blend = blend]
  obtain g s' where g: "FilterDithering_Row W (view fb (indexed s0)) (smearFlags s0) = Inr g"
    "length g = length (smearFlags s0)"
    and run: "FC_row W vita pal blend fb firstRow 0 s0 = Inr s'"
    and f': "smearFlags s' = replicate (nat (W - 1)) 0 @ drop (nat (W - 1)) g"
    and m': "mem s' = (\<lambda>a. if (if vita then (firstRow + 0) * 1024 else color s0) \<le> a \<and>
                            a < (if vita then (firstRow + 0) * 1024 else color s0) + W
                         then filtered_pixel W pal blend fb (indexed s0) g (mem s0 a)
                                (a - (if vita then (firstRow + 0) * 1024 else color s0))
                         else mem s0 a)"
    by blast
  have call: "IndexedFramebufferToColor_FilterDithering W vita pal blend fb (cm, gf) threadNum firstRow 1 =
      Inr (mem s', unview gf base (smearFlags s'))"
    using run by (simp add: IndexedFramebufferToColor_FilterDithering_def Let_def for_loop_one
        base_def [symmetric] s0_def [symmetric])
  have m'': "mem s' = (\<lambda>a. if (if vita then firstRow * 1024 else firstRow * W) \<le> a \<and>
                            a < (if vita then firstRow * 1024 else firstRow * W) + W
                         then filtered_pixel W pal blend fb (firstRow * W) g (cm a)
                                (a - (if vita then firstRow * 1024 else firstRow * W))
                         else cm a)"
    unfolding m' s0f by (cases vita) (simp_all cong: if_cong)
  show ?thesis
    unfolding base_def [symmetric]
    using g [unfolded s0f] call [unfolded f' m''] by (intro exI [where x = g] conjI)
qed

lemma uint_drop_bit_16: "uint (drop_bit n (w :: 16 word)) = uint w div 2 ^ n"
proof -
  have "uint (drop_bit n w) = drop_bit n (take_bit 16 (uint w))"
    by (simp add: unsigned_drop_bit_eq)
  also have "take_bit 16 (uint w) = uint w"
    using uint_bounded [of w] by (simp add: take_bit_int_eq_self)
  finally show ?thesis by (simp add: drop_bit_eq_div)
qed

lemma blend_PackedColor_fields:
  "uint (packed_r (blend_PackedColor pal i0 i1 out)) =
     (uint (packed_r (finalColorsXX pal i0)) + uint (packed_r (finalColorsXX pal i1))) div 2"
  "uint (packed_g (blend_PackedColor pal i0 i1 out)) =
     (uint (packed_g (finalColorsXX pal i0)) + uint (packed_g (finalColorsXX pal i1))) div 2"
  "uint (packed_b (blend_PackedColor pal i0 i1 out)) =
     (uint (packed_b (finalColorsXX pal i0)) + uint (packed_b (finalColorsXX pal i1))) div 2"
  "PackedColor.more (blend_PackedColor pal i0 i1 out) = PackedColor.more out"
  by (simp_all add: blend_PackedColor_def Let_def mix8_ucast)

lemma blend_depth32_channels:
  "uint (get_byte e (blend_depth32 e pal i0 i1 old) (RI e)) =
     (uint (get_byte e (finalColors32 pal i0) (RI e)) + uint (get_byte e (finalColors32 pal i1) (RI e))) div 2"
  "uint (get_byte e (blend_depth32 e pal i0 i1 old) (GI e)) =
     (uint (get_byte e (finalColors32 pal i0) (GI e)) + uint (get_byte e (finalColors32 pal i1) (GI e))) div 2"
  "uint (get_byte e (blend_depth32 e pal i0 i1 old) (BI e)) =
     (uint (get_byte e (finalColors32 pal i0) (BI e)) + uint (get_byte e (finalColors32 pal i1) (BI e))) div 2"
  "get_byte e (blend_depth32 e pal i0 i1 old) (AI e) = get_byte e old (AI e)"
  by (simp_all add: blend_depth32_def blend32_bytes rmix8_def gmix8_def bmix8_def mix8_ucast)

lemma blend_depth16_channels:
  "uint (drop_bit 11 (blend_depth16 e pal i0 i1 old)) =
     (uint (get_byte e (finalColors32 pal i0) (RI e)) + uint (get_byte e (finalColors32 pal i1) (RI e))) div 2 div 8"
  "uint (take_bit 6 (drop_bit 5 (blend_depth16 e pal i0 i1 old))) =
     (uint (get_byte e (finalColors32 pal i0) (GI e)) + uint (get_byte e (finalColors32 pal i1) (GI e))) div 2 div 4"
  "uint (take_bit 5 (blend_depth16 e pal i0 i1 old)) =
     (uint (get_byte e (finalColors32 pal i0) (BI e)) + uint (get_byte e (finalColors32 pal i1) (BI e))) div 2 div 8"
  by (simp_all add: blend_depth16_def blend16_fields uint_drop_bit_16 rmix8_def gmix8_def bmix8_def mix8_floor)

text \<open>
  Claim C3 (as amended). When one row is converted, every pixel that the detector flagged,
  other than the last of its row, is written by the blended write from the palette entries
  of the pixel and of its right neighbour. The blended write computes, for red, green and
  blue, the mean of the two channel values rounded down. For a depth of 32 bits the three
  means become the three colour bytes of the output pixel and its fourth byte keeps what
  the output buffer held; for a depth of 16 bits the means are packed into the 5-6-5
  fields, losing their low bits; the earlier variant assigns the three fields of a
  \<open>PackedColor\<close> and leaves the rest of the structure alone. No alpha value is computed.
\<close>

theorem filtered_blend_is_channel_mean:
  assumes "2 \<le> W" and "0 \<le> firstRow" and "(firstRow + 1) * W \<le> int (length fb)"
    and "0 \<le> threadNum" and "(threadNum + 1) * W \<le> int (length gRowDitherStrides)"
  shows
    "(\<exists>g m gf. FilterDithering_Row W (view fb (firstRow * W)) (view gRowDitherStrides (threadNum * W)) = Inr g \<and>
        IndexedFramebufferToColor_FilterDithering W vita pal blend fb (colormem, gRowDitherStrides)
          threadNum firstRow 1 = Inr (m, gf) \<and>
        (\<forall>x. 0 \<le> x \<and> x < W - 1 \<and> g ! nat x \<noteq> 0 \<longrightarrow>
           m ((if vita then firstRow * 1024 else firstRow * W) + x) =
             blend (fb ! nat (firstRow * W + x)) (fb ! nat (firstRow * W + x + 1))
               (colormem ((if vita then firstRow * 1024 else firstRow * W) + x)))) \<and>
     uint (get_byte e (blend_depth32 e pal32 i0 i1 old32) (RI e)) =
       (uint (get_byte e (finalColors32 pal32 i0) (RI e)) + uint (get_byte e (finalColors32 pal32 i1) (RI e))) div 2 \<and>
     uint (get_byte e (blend_depth32 e pal32 i0 i1 old32) (GI e)) =
       (uint (get_byte e (finalColors32 pal32 i0) (GI e)) + uint (get_byte e (finalColors32 pal32 i1) (GI e))) div 2 \<and>
     uint (get_byte e (blend_depth32 e pal32 i0 i1 old32) (BI e)) =
       (uint (get_byte e (finalColors32 pal32 i0) (BI e)) + uint (get_byte e (finalColors32 pal32 i1) (BI e))) div 2 \<and>
     get_byte e (blend_depth32 e pal32 i0 i1 old32) (AI e) = get_byte e old32 (AI e) \<and>
     uint (drop_bit 11 (blend_depth16 e pal16 i0 i1 old16)) =
       (uint (get_byte e (finalColors32 pal16 i0) (RI e)) + uint (get_byte e (finalColors32 pal16 i1) (RI e))) div 2 div 8 \<and>
     uint (take_bit 6 (drop_bit 5 (blend_depth16 e pal16 i0 i1 old16))) =
       (uint (get_byte e (finalColors32 pal16 i0) (GI e)) + uint (get_byte e (finalColors32 pal16 i1) (GI e))) div 2 div 4 \<and>
     uint (take_bit 5 (blend_depth16 e pal16 i0 i1 old16)) =
       (uint (get_byte e (finalColors32 pal16 i0) (BI e)) + uint (get_byte e (finalColors32 pal16 i1) (BI e))) div 2 div 8 \<and>
     uint (packed_r (blend_PackedColor palP i0 i1 oldP)) =
       (uint (packed_r (finalColorsXX palP i0)) + uint (packed_r (finalColorsXX palP i1))) div 2 \<and>
     uint (packed_g (blend_PackedColor palP i0 i1 oldP)) =
       (uint (packed_g (finalColorsXX palP i0)) + uint (packed_g (finalColorsXX palP i1))) div 2 \<and>
     uint (packed_b (blend_PackedColor palP i0 i1 oldP)) =
       (uint (packed_b (finalColorsXX palP i0)) + uint (packed_b (finalColorsXX palP i1))) div 2 \<and>
     PackedColor.more (blend_PackedColor palP i0 i1 oldP) = PackedColor.more oldP"
proof -
  define c where "c = (if vita then firstRow * 1024 else firstRow * W)"
  from FC_call_one_row [OF assms, where vita = vita and pal = pal and blend = blend and cm = colormem]
  obtain g where g: "FilterDithering_Row W (view fb (firstRow * W)) (view gRowDitherStrides (threadNum * W)) = Inr g"
    and call: "IndexedFramebufferToColor_FilterDithering W vita pal blend fb (colormem, gRowDitherStrides)
          threadNum firstRow 1 =
        Inr (\<lambda>a. if c \<le> a \<and> a < c + W
                  then filtered_pixel W pal blend fb (firstRow * W) g (colormem a) (a - c)
                  else colormem a,
             unview gRowDitherStrides (threadNum * W) (replicate (nat (W - 1)) 0 @ drop (nat (W - 1)) g))"
    unfolding c_def by blast
  have "\<forall>x. 0 \<le> x \<and> x < W - 1 \<and> g ! nat x \<noteq> 0 \<longrightarrow>
      (\<lambda>a. if c \<le> a \<and> a < c + W
                  then filtered_pixel W pal blend fb (firstRow * W) g (colormem a) (a - c)
                  else colormem a) (c + x) =
      blend (fb ! nat (firstRow * W + x)) (fb ! nat (firstRow * W + x + 1)) (colormem (c + x))"
    by (simp add: filtered_pixel_def)
  with g call have first: "\<exists>g m gf. FilterDithering_Row W (view fb (firstRow * W)) (view gRowDitherStrides (threadNum * W)) = Inr g \<and>
        IndexedFramebufferToColor_FilterDithering W vita pal blend fb (colormem, gRowDitherStrides)
          threadNum firstRow 1 = Inr (m, gf) \<and>
        (\<forall>x. 0 \<le> x \<and> x < W - 1 \<and> g ! nat x \<noteq> 0 \<longrightarrow>
           m (c + x) = blend (fb ! nat (firstRow * W + x)) (fb ! nat (firstRow * W + x + 1)) (colormem (c + x)))"
    by blast
  show ?thesis
    using first [unfolded c_def]
    by (simp only: blend_depth32_channels blend_depth16_channels blend_PackedColor_fields simp_thms)
qed


lemma FilterDithering_Row_flag_pointwise:
  assumes W: "2 \<le> W" and lenr: "W \<le> int (length row)"
    and l1: "W \<le> int (length f1)" and l2: "W \<le> int (length f2)"
    and i: "int i < W" and eq: "f1 ! i = f2 ! i"
    and g1: "FilterDithering_Row W row f1 = Inr g1" and g2: "FilterDithering_Row W row f2 = Inr g2"
  shows "g1 ! i = g2 ! i"
proof -
  note r0 = rd_first_two(1) [OF W lenr] and r1 = rd_first_two(2) [OF W lenr]
  define m0 where "m0 = uint (row ! 0)"
  have "\<exists>s t. for_loop 0 (W - 1) (FD_step row) (FD_init m0 f1) = Inr s \<and>
      for_loop 0 (W - 1) (FD_step row) (FD_init m0 f2) = Inr t \<and> R_flags W f1 f2 i (W - 1) s t"
  proof (rule for_loop_rule2 [where R = "R_flags W f1 f2 i"])
    show "R_flags W f1 f2 i 0 (FD_init m0 f1) (FD_init m0 f2)"
      unfolding R_flags_def using I10_init [of W f1 m0] I10_init [of W f2 m0] eq
      by (simp add: FD_init_def)
    show "0 \<le> W - 1" using W by simp
  next
    fix x s t assume "R_flags W f1 f2 i x s t" "x < W - 1"
    then show "\<exists>s' t'. FD_step row x s = Inr s' \<and> FD_step row x t = Inr t' \<and>
        R_flags W f1 f2 i (x + 1) s' t'"
      using lenr l1 l2 i by (rule R_flags_step)
  qed
  then obtain s t where s: "FD_scan W row f1 = Inr s" and t: "FD_scan W row f2 = Inr t"
    and r: "R_flags W f1 f2 i (W - 1) s t"
    by (auto simp: FD_scan_def FD_loop_def r0 r1 m0_def)
  from r have i1: "I10 W f1 (W - 1) s" and i2: "I10 W f2 (W - 1) t"
    and ctl: "ditherStart s = ditherStart t" "ditherEnd s = ditherEnd t"
    and e: "smear s ! i = smear t ! i"
    unfolding R_flags_def by blast+
  from i1 have ds: "0 \<le> ditherStart s" and de: "ditherEnd s \<le> W - 1"
    and sl: "length (smear s) = length f1"
    unfolding I10_def by auto
  from i2 have tl: "length (smear t) = length f2" unfolding I10_def by blast
  have b: "ditherEnd s < int (length (smear s))" "ditherEnd s < int (length (smear t))"
    using de l1 l2 sl tl by simp_all
  have ii: "i < length (smear s)" "i < length (smear t)" using i l1 l2 sl tl by linarith+
  from g1 s have c1: "COMMIT_STRIDE (smear s) (ditherStart s) (ditherEnd s) = Inr g1"
    by (simp add: FilterDithering_Row_def)
  from g2 t have c2: "COMMIT_STRIDE (smear t) (ditherStart s) (ditherEnd s) = Inr g2"
    by (simp add: FilterDithering_Row_def ctl)
  show ?thesis by (rule COMMIT_STRIDE_pointwise [OF c1 c2 ds b ii e])
qed


lemma view_nth: "0 \<le> p \<Longrightarrow> p + int k < int (length a) \<Longrightarrow> view a p ! k = a ! nat (p + int k)"
  by (simp add: view_def nat_add_distrib)

lemma single_row_independent:
  assumes W: "2 \<le> W" and fr: "0 \<le> firstRow"
    and fb1: "(firstRow + 1) * W \<le> int (length fb1)" and fb2: "(firstRow + 1) * W \<le> int (length fb2)"
    and t1: "0 \<le> t1" "(t1 + 1) * W \<le> int (length gf1)"
    and t2: "0 \<le> t2" "(t2 + 1) * W \<le> int (length gf2)"
    and rows: "take (nat W) (view fb1 (firstRow * W)) = take (nat W) (view fb2 (firstRow * W))"
    and flags: "take (nat (W - 1)) (view gf1 (t1 * W)) = take (nat (W - 1)) (view gf2 (t2 * W))"
  shows "\<exists>m g1 g2.
           IndexedFramebufferToColor_FilterDithering W vita pal blend fb1 (cm, gf1) t1 firstRow 1 =
             Inr (m, g1) \<and>
           IndexedFramebufferToColor_FilterDithering W vita pal blend fb2 (cm, gf2) t2 firstRow 1 =
             Inr (m, g2)"
proof -
  define ip where "ip = firstRow * W"
  define c where "c = (if vita then firstRow * 1024 else firstRow * W)"
  have ip: "0 \<le> ip" "ip + W \<le> int (length fb1)" "ip + W \<le> int (length fb2)"
    unfolding ip_def using fr W fb1 fb2 by (simp_all add: distrib_right)
  note b1 = thread_bound [OF t1 order_trans [OF _ W, of 0, simplified]]
  note b2 = thread_bound [OF t2 order_trans [OF _ W, of 0, simplified]]
  from FC_call_one_row [OF W fr fb1 t1, where vita = vita and pal = pal and blend = blend and cm = cm]
  obtain ga where ga: "FilterDithering_Row W (view fb1 ip) (view gf1 (t1 * W)) = Inr ga"
    and la: "length ga = length (view gf1 (t1 * W))"
    and ca: "IndexedFramebufferToColor_FilterDithering W vita pal blend fb1 (cm, gf1) t1 firstRow 1 =
        Inr (\<lambda>a. if c \<le> a \<and> a < c + W then filtered_pixel W pal blend fb1 ip ga (cm a) (a - c) else cm a,
             unview gf1 (t1 * W) (replicate (nat (W - 1)) 0 @ drop (nat (W - 1)) ga))"
    unfolding ip_def c_def by blast
  from FC_call_one_row [OF W fr fb2 t2, where vita = vita and pal = pal and blend = blend and cm = cm]
  obtain gb where gb: "FilterDithering_Row W (view fb2 ip) (view gf2 (t2 * W)) = Inr gb"
    and cb: "IndexedFramebufferToColor_FilterDithering W vita pal blend fb2 (cm, gf2) t2 firstRow 1 =
        Inr (\<lambda>a. if c \<le> a \<and> a < c + W then filtered_pixel W pal blend fb2 ip gb (cm a) (a - c) else cm a,
             unview gf2 (t2 * W) (replicate (nat (W - 1)) 0 @ drop (nat (W - 1)) gb))"
    unfolding ip_def c_def by blast
  have gb': "FilterDithering_Row W (view fb1 ip) (view gf2 (t2 * W)) = Inr gb"
    using FilterDithering_Row_reads_row_only [OF rows [folded ip_def] W] gb by simp
  have lr: "W \<le> int (length (view fb1 ip))" using ip by (simp add: view_def)
  have l1: "W \<le> int (length (view gf1 (t1 * W)))" using b1 by (intro view_length) simp_all
  have l2: "W \<le> int (length (view gf2 (t2 * W)))" using b2 by (intro view_length) simp_all
  have px: "fb1 ! nat (ip + k) = fb2 ! nat (ip + k)" if k: "0 \<le> k" "k < W" for k
  proof -
    have "take (nat W) (view fb1 ip) ! nat k = take (nat W) (view fb2 ip) ! nat k"
      using rows by (simp add: ip_def)
    then have "view fb1 ip ! nat k = view fb2 ip ! nat k" using k by simp
    moreover have "view fb1 ip ! nat k = fb1 ! nat (ip + int (nat k))"
      using ip k by (intro view_nth) simp_all
    moreover have "view fb2 ip ! nat k = fb2 ! nat (ip + int (nat k))"
      using ip k by (intro view_nth) simp_all
    ultimately show ?thesis using k by simp
  qed
  have fl: "ga ! nat k = gb ! nat k" if k: "0 \<le> k" "k < W - 1" for k
  proof -
    have "take (nat (W - 1)) (view gf1 (t1 * W)) ! nat k = take (nat (W - 1)) (view gf2 (t2 * W)) ! nat k"
      by (simp only: flags)
    then have e: "view gf1 (t1 * W) ! nat k = view gf2 (t2 * W) ! nat k" using k by simp
    have "int (nat k) < W" using k by simp
    from FilterDithering_Row_flag_pointwise [OF W lr l1 l2 this e ga gb'] show ?thesis .
  qed
  have "filtered_pixel W pal blend fb1 ip ga old k = filtered_pixel W pal blend fb2 ip gb old k"
    if k: "0 \<le> k" "k < W" for k old
  proof (cases "k < W - 1")
    case True
    then have "0 \<le> k + 1" "k + 1 < W" using k by simp_all
    from px [OF this] px [OF k] fl [OF k(1) True] show ?thesis
      by (simp add: filtered_pixel_def add.assoc)
  next
    case False
    with px [OF k] show ?thesis by (simp add: filtered_pixel_def)
  qed
  then have "(\<lambda>a. if c \<le> a \<and> a < c + W then filtered_pixel W pal blend fb1 ip ga (cm a) (a - c) else cm a) =
      (\<lambda>a. if c \<le> a \<and> a < c + W then filtered_pixel W pal blend fb2 ip gb (cm a) (a - c) else cm a)"
    by (auto simp: fun_eq_iff)
  with ca cb show ?thesis by simp
qed

text \<open>
  Claim C6. Converting a range of rows with one call gives the same result (the same
  output pixels, the same flag buffer, or the same error) as converting its rows one by
  one with successive single-row calls, for the filtered and for the unfiltered converter.
  And what the filtered conversion of a row writes does not depend on the other rows of
  the framebuffer, on which thread's flag buffer is used, or on what earlier conversions
  left in it: two single-row calls write the same output whenever the two framebuffers
  agree on that row and the two flag buffers agree on the columns \<open>0 .. VISIBLE_WIDTH-2\<close>,
  which every earlier row leaves clear.
\<close>

theorem one_call_equals_single_row_calls:
  assumes "1 \<le> W"
  shows "IndexedFramebufferToColor_FilterDithering W vita pal blend fb st threadNum firstRow (int n) =
           single_rows (\<lambda>st' r k. IndexedFramebufferToColor_FilterDithering W vita pal blend fb st' threadNum r k)
             firstRow n st \<and>
         IndexedFramebufferToColor_NoFilter W vita pal fb cm firstRow (int n) =
           single_rows (\<lambda>cm' r k. IndexedFramebufferToColor_NoFilter W vita pal fb cm' r k) firstRow n cm \<and>
         (2 \<le> W \<and> 0 \<le> row \<and>
          (row + 1) * W \<le> int (length fb1) \<and> (row + 1) * W \<le> int (length fb2) \<and>
          0 \<le> t1 \<and> (t1 + 1) * W \<le> int (length gf1) \<and>
          0 \<le> t2 \<and> (t2 + 1) * W \<le> int (length gf2) \<and>
          take (nat W) (view fb1 (row * W)) = take (nat W) (view fb2 (row * W)) \<and>
          take (nat (W - 1)) (view gf1 (t1 * W)) = take (nat (W - 1)) (view gf2 (t2 * W)) \<longrightarrow>
          (\<exists>m g1 g2.
             IndexedFramebufferToColor_FilterDithering W vita pal blend fb1 (cm, gf1) t1 row 1 =
               Inr (m, g1) \<and>
             IndexedFramebufferToColor_FilterDithering W vita pal blend fb2 (cm, gf2) t2 row 1 =
               Inr (m, g2)))"
  using assms FC_single_rows [of W vita pal blend fb st threadNum firstRow n]
    NF_single_rows [of W vita pal fb cm firstRow n]
    single_row_independent [of W row fb1 fb2 t1 gf1 t2 gf2 vita pal blend cm]
  by simp


subsection \<open>The scenario of the specification\<close>

theorem blend_alpha_counterexample:
  "(case IndexedFramebufferToColor_FilterDithering 5 False scenario_palette32
           (blend_depth32 LittleEndian scenario_palette32) [5, 7, 5, 7, 5]
           (\<lambda>a. 0, [0, 0, 0, 0, 0]) 0 0 1 of
      Inl err \<Rightarrow> False
    | Inr (m, gf) \<Rightarrow>
        m 0 = 0x7F007F00 \<and>
        get_byte LittleEndian (m 0) (RI LittleEndian) = 127 \<and>
        get_byte LittleEndian (m 0) (GI LittleEndian) = 0 \<and>
        get_byte LittleEndian (m 0) (BI LittleEndian) = 127 \<and>
        get_byte LittleEndian (m 0) (AI LittleEndian) = 0)"
  by code_simp

theorem last_flag_counterexample:
  "(case IndexedFramebufferToColor_FilterDithering 5 False scenario_palette16
           (blend_depth16 LittleEndian scenario_palette16) [5, 7, 5, 7, 5]
           (\<lambda>a. 0, [0, 0, 0, 0, 0]) 0 0 1 of
      Inl err \<Rightarrow> []
    | Inr (m, gf) \<Rightarrow> gf) = [0, 0, 0, 0, 1]"
  by code_simp

theorem flags_cleared_up_to_last_witness:
  "\<exists>m g. IndexedFramebufferToColor_FilterDithering 5 False scenario_palette16
            (blend_depth16 LittleEndian scenario_palette16) [5, 7, 5, 7, 5, 7, 7, 7, 7, 7]
            (\<lambda>a. 0, [0, 0, 0, 0, 0]) 0 0 2 = Inr (m, g) \<and>
          length g = length [0, 0, 0, 0, 0 :: 8 word] \<and>
          take (nat (5 - 1)) (view g (0 * 5)) = replicate (nat (5 - 1)) 0 \<and>
          view g (0 * 5) ! nat (5 - 1) = 1"
proof -
  have "stride_reaches_end 5 (view [5, 7, 5, 7, 5, 7, 7, 7, 7, 7] ((0 + 0) * 5))"
    by code_simp
  then have "\<exists>y. 0 \<le> y \<and> y < 2 \<and>
      stride_reaches_end 5 (view [5, 7, 5, 7, 5, 7, 7, 7, 7, 7] ((0 + y) * 5))"
    by (intro exI [where x = 0]) simp
  then show ?thesis
    using flags_cleared_up_to_last [of 5 0 2 "[5, 7, 5, 7, 5, 7, 7, 7, 7, 7]" 0 "[0, 0, 0, 0, 0]" False
      scenario_palette16 "blend_depth16 LittleEndian scenario_palette16" "\<lambda>a. 0"]
    by simp
qed

theorem one_call_equals_single_row_calls_witness:
  "IndexedFramebufferToColor_FilterDithering 4 False scenario_palette16
       (blend_depth16 LittleEndian scenario_palette16) [5, 7, 5, 7, 7, 7, 5, 5]
       (\<lambda>a. 0, [0, 0, 0, 0]) 0 0 (int 2) =
     single_rows (\<lambda>st' r k. IndexedFramebufferToColor_FilterDithering 4 False scenario_palette16
       (blend_depth16 LittleEndian scenario_palette16) [5, 7, 5, 7, 7, 7, 5, 5] st' 0 r k) 0 2
       (\<lambda>a. 0, [0, 0, 0, 0]) \<and>
   IndexedFramebufferToColor_NoFilter 4 False scenario_palette16 [5, 7, 5, 7, 7, 7, 5, 5] (\<lambda>a. 0) 0 (int 2) =
     single_rows (\<lambda>cm' r k. IndexedFramebufferToColor_NoFilter 4 False scenario_palette16
       [5, 7, 5, 7, 7, 7, 5, 5] cm' r k) 0 2 (\<lambda>a. 0) \<and>
   (\<exists>m g1 g2.
      IndexedFramebufferToColor_FilterDithering 4 False scenario_palette16
        (blend_depth16 LittleEndian scenario_palette16) [5, 7, 5, 7, 7, 7, 5, 5]
        (\<lambda>a. 0, [0, 0, 0, 0]) 0 0 1 = Inr (m, g1) \<and>
      IndexedFramebufferToColor_FilterDithering 4 False scenario_palette16
        (blend_depth16 LittleEndian scenario_palette16) [5, 7, 5, 7, 1, 2, 3, 4]
        (\<lambda>a. 0, [0, 0, 0, 1, 0, 0, 0, 1]) 1 0 1 = Inr (m, g2))"
  using one_call_equals_single_row_calls [where W = 4 and vita = False and pal = scenario_palette16
      and blend = "blend_depth16 LittleEndian scenario_palette16" and fb = "[5, 7, 5, 7, 7, 7, 5, 5]"
      and st = "(\<lambda>a. 0, [0, 0, 0, 0])" and threadNum = 0 and firstRow = 0 and n = 2
      and cm = "\<lambda>a. 0" and row = 0 and ?fb1.0 = "[5, 7, 5, 7, 7, 7, 5, 5]"
      and ?fb2.0 = "[5, 7, 5, 7, 1, 2, 3, 4]" and ?t1.0 = 0 and ?gf1.0 = "[0, 0, 0, 0]"
      and ?t2.0 = 1 and ?gf2.0 = "[0, 0, 0, 1, 0, 0, 0, 1]"]
  by (simp add: view_def)

theorem filtered_blend_is_channel_mean_witness:
  "(\<exists>g m gf. FilterDithering_Row 5 (view [5, 7, 5, 7, 5] (0 * 5)) (view [0, 0, 0, 0, 0] (0 * 5)) = Inr g \<and>
        IndexedFramebufferToColor_FilterDithering 5 False scenario_palette32
          (blend_depth32 LittleEndian scenario_palette32) [5, 7, 5, 7, 5] (\<lambda>a. 0, [0, 0, 0, 0, 0])
          0 0 1 = Inr (m, gf) \<and>
        (\<forall>x. 0 \<le> x \<and> x < 5 - 1 \<and> g ! nat x \<noteq> 0 \<longrightarrow>
           m ((if False then 0 * 1024 else 0 * 5) + x) =
             blend_depth32 LittleEndian scenario_palette32
               ([5, 7, 5, 7, 5] ! nat (0 * 5 + x)) ([5, 7, 5, 7, 5] ! nat (0 * 5 + x + 1))
               ((\<lambda>a. 0) ((if False then 0 * 1024 else 0 * 5) + x)))) \<and>
   uint (get_byte LittleEndian (blend_depth32 LittleEndian scenario_palette32 5 7 0) (RI LittleEndian)) = 127 \<and>
   uint (get_byte LittleEndian (blend_depth32 LittleEndian scenario_palette32 5 7 0) (GI LittleEndian)) = 0 \<and>
   uint (get_byte LittleEndian (blend_depth32 LittleEndian scenario_palette32 5 7 0) (BI LittleEndian)) = 127 \<and>
   get_byte LittleEndian (blend_depth32 LittleEndian scenario_palette32 5 7 0) (AI LittleEndian) =
     get_byte LittleEndian 0 (AI LittleEndian)"
proof -
  have r: "(uint (get_byte LittleEndian (finalColors32 scenario_palette32 5) (RI LittleEndian)) +
            uint (get_byte LittleEndian (finalColors32 scenario_palette32 7) (RI LittleEndian))) div 2 = 127"
    and g: "(uint (get_byte LittleEndian (finalColors32 scenario_palette32 5) (GI LittleEndian)) +
            uint (get_byte LittleEndian (finalColors32 scenario_palette32 7) (GI LittleEndian))) div 2 = 0"
    and b: "(uint (get_byte LittleEndian (finalColors32 scenario_palette32 5) (BI LittleEndian)) +
            uint (get_byte LittleEndian (finalColors32 scenario_palette32 7) (BI LittleEndian))) div 2 = 127"
    by code_simp+
  show ?thesis
    using filtered_blend_is_channel_mean [where W = 5 and firstRow = 0 and fb = "[5, 7, 5, 7, 5]"
        and threadNum = 0 and gRowDitherStrides = "[0, 0, 0, 0, 0]" and vita = False
        and pal = scenario_palette32 and blend = "blend_depth32 LittleEndian scenario_palette32"
        and colormem = "\<lambda>a. 0" and e = LittleEndian and ?pal32.0 = scenario_palette32
        and ?i0.0 = 5 and ?i1.0 = 7 and ?old32.0 = 0 and ?pal16.0 = scenario_palette16
        and ?old16.0 = 0
        and palP = "\<lparr>finalColors32 = (\<lambda>i. 0),
                       finalColorsXX = (\<lambda>i. \<lparr>packed_r = 0, packed_g = 0, packed_b = 0\<rparr>)\<rparr>"
        and oldP = "\<lparr>packed_r = 0, packed_g = 0, packed_b = 0\<rparr>"]
    by (simp only: r g b) simp
qed


section \<open>Properties of the pixel doubler\<close>

lemma count_loop_rule:
  assumes "P x s" and "x \<le> n" and "\<And>x s. P x s \<Longrightarrow> x < n \<Longrightarrow> P (x + 1) (body x s)"
  shows "P n (count_loop x n body s)"
  using assms(1,2)
proof (induction "nat (n - x)" arbitrary: x s)
  case 0
  then have "x = n" by simp
  with 0 show ?case by (subst count_loop.simps) simp
next
  case (Suc k)
  then have lt: "x < n" by linarith
  from Suc.hyps(2) lt have k: "k = nat (n - (x + 1))" by linarith
  from assms(3) [OF Suc.prems(1) lt] have "P (x + 1) (body x s)" .
  from Suc.hyps(1) [OF k this] lt show ?case
    by (subst count_loop.simps) simp
qed

lemma count_loop_done: "n \<le> x \<Longrightarrow> count_loop x n body s = s"
  by (subst count_loop.simps) simp

lemma doubled_in_block:
  assumes W: "0 < W" and c: "0 \<le> c" "c < 4 * W"
  shows "doubled W src (y * (4 * W) + c) =
           src (y * W + (if c < 2 * W then c div 2 else (c - 2 * W) div 2))"
proof -
  have a: "y * (4 * W) + c = c + (2 * y) * (2 * W)" by (simp add: algebra_simps)
  show ?thesis
  proof (cases "c < 2 * W")
    case True
    with c W have s: "c div (2 * W) = 0" "c mod (2 * W) = c" by simp_all
    have "(c + (2 * y) * (2 * W)) div (2 * W) = 2 * y + c div (2 * W)"
      using W by (intro div_mult_self1) simp
    moreover have "(c + (2 * y) * (2 * W)) mod (2 * W) = c mod (2 * W)"
      by (rule mod_mult_self1)
    ultimately have "(y * (4 * W) + c) div (2 * W) = 2 * y" "(y * (4 * W) + c) mod (2 * W) = c"
      unfolding a s by simp_all
    with True show ?thesis unfolding doubled_def by simp
  next
    case False
    define d where "d = c - 2 * W"
    have d: "0 \<le> d" "d < 2 * W" and cd: "c = d + 1 * (2 * W)" using False c by (simp_all add: d_def)
    have a': "y * (4 * W) + c = d + (2 * y + 1) * (2 * W)" unfolding cd by (simp add: algebra_simps)
    from d W have s: "d div (2 * W) = 0" "d mod (2 * W) = d" by simp_all
    have "(d + (2 * y + 1) * (2 * W)) div (2 * W) = 2 * y + 1 + d div (2 * W)"
      using W by (intro div_mult_self1) simp
    moreover have "(d + (2 * y + 1) * (2 * W)) mod (2 * W) = d mod (2 * W)"
      by (rule mod_mult_self1)
    ultimately have "(y * (4 * W) + c) div (2 * W) = 2 * y + 1" "(y * (4 * W) + c) mod (2 * W) = d"
      unfolding a' s by simp_all
    with False show ?thesis unfolding doubled_def d_def by simp
  qed
qed

lemma DP_row_result:
  assumes W: "0 \<le> W"
  shows "DP_row W src y s =
     \<lparr>colorx1 = colorx1 s + W, colorx2 = colorx2 s + 4 * W,
      x2mem = (\<lambda>a. if colorx2 s \<le> a \<and> a < colorx2 s + 2 * W
                     then src (colorx1 s + (a - colorx2 s) div 2)
                   else if colorx2 s + 2 * W \<le> a \<and> a < colorx2 s + 4 * W
                     then src (colorx1 s + (a - colorx2 s - 2 * W) div 2)
                   else x2mem s a)\<rparr>"
proof -
  define P where "P = (\<lambda>x (u :: 'a dp_state). 0 \<le> x \<and> colorx1 u = colorx1 s + x \<and>
      colorx2 u = colorx2 s + 2 * x \<and>
      x2mem u = (\<lambda>a. if colorx2 s \<le> a \<and> a < colorx2 s + 2 * x
                       then src (colorx1 s + (a - colorx2 s) div 2) else x2mem s a))"
  have "P W (count_loop 0 W (DP_pixel src) s)"
  proof (rule count_loop_rule [where P = P])
    show "P 0 s" by (auto simp: P_def fun_eq_iff)
    show "0 \<le> W" by (rule W)
  next
    fix x u assume p: "P x u" and "x < W"
    from p have f: "0 \<le> x" "colorx1 u = colorx1 s + x" "colorx2 u = colorx2 s + 2 * x"
      "x2mem u = (\<lambda>a. if colorx2 s \<le> a \<and> a < colorx2 s + 2 * x
                       then src (colorx1 s + (a - colorx2 s) div 2) else x2mem s a)"
      unfolding P_def by blast+
    have "x2mem (DP_pixel src x u) =
        (\<lambda>a. if colorx2 s \<le> a \<and> a < colorx2 s + 2 * (x + 1)
              then src (colorx1 s + (a - colorx2 s) div 2) else x2mem s a)"
    proof
      fix a
      consider "a = colorx2 s + 2 * x" | "a = colorx2 s + 2 * x + 1"
        | "a < colorx2 s + 2 * x" | "colorx2 s + 2 * x + 1 < a" by linarith
      then show "x2mem (DP_pixel src x u) a =
        (if colorx2 s \<le> a \<and> a < colorx2 s + 2 * (x + 1)
              then src (colorx1 s + (a - colorx2 s) div 2) else x2mem s a)"
        using f(1) by cases (simp_all add: DP_pixel_def Let_def f)
    qed
    with f show "P (x + 1) (DP_pixel src x u)"
      unfolding P_def by (simp add: DP_pixel_def Let_def)
  qed
  then have f: "colorx1 (count_loop 0 W (DP_pixel src) s) = colorx1 s + W"
    "colorx2 (count_loop 0 W (DP_pixel src) s) = colorx2 s + 2 * W"
    "x2mem (count_loop 0 W (DP_pixel src) s) =
      (\<lambda>a. if colorx2 s \<le> a \<and> a < colorx2 s + 2 * W
                       then src (colorx1 s + (a - colorx2 s) div 2) else x2mem s a)"
    unfolding P_def by blast+
  have mm: "memcpy_pixels (x2mem (count_loop 0 W (DP_pixel src) s)) (colorx2 s + 2 * W) (colorx2 s) (W * 2) =
      (\<lambda>a. if colorx2 s \<le> a \<and> a < colorx2 s + 2 * W
                     then src (colorx1 s + (a - colorx2 s) div 2)
                   else if colorx2 s + 2 * W \<le> a \<and> a < colorx2 s + 4 * W
                     then src (colorx1 s + (a - colorx2 s - 2 * W) div 2)
                   else x2mem s a)"
  proof
    fix a
    consider "a < colorx2 s + 2 * W" | "colorx2 s + 2 * W \<le> a" "a < colorx2 s + 4 * W"
      | "colorx2 s + 4 * W \<le> a" by linarith
    then show "memcpy_pixels (x2mem (count_loop 0 W (DP_pixel src) s)) (colorx2 s + 2 * W) (colorx2 s) (W * 2) a =
      (if colorx2 s \<le> a \<and> a < colorx2 s + 2 * W
                     then src (colorx1 s + (a - colorx2 s) div 2)
                   else if colorx2 s + 2 * W \<le> a \<and> a < colorx2 s + 4 * W
                     then src (colorx1 s + (a - colorx2 s - 2 * W) div 2)
                   else x2mem s a)"
    proof cases
      case 1
      then show ?thesis by (simp add: memcpy_pixels_def f(3))
    next
      case 2
      define b where "b = colorx2 s + (a - (colorx2 s + 2 * W))"
      have b: "b - colorx2 s = a - colorx2 s - 2 * W" "colorx2 s \<le> b" "b < colorx2 s + 2 * W"
        using 2 by (simp_all add: b_def)
      have "memcpy_pixels (x2mem (count_loop 0 W (DP_pixel src) s)) (colorx2 s + 2 * W) (colorx2 s) (W * 2) a =
          x2mem (count_loop 0 W (DP_pixel src) s) b"
        using 2 by (simp add: memcpy_pixels_def b_def)
      also have "\<dots> = src (colorx1 s + (b - colorx2 s) div 2)"
        using b(2,3) by (simp add: f(3))
      also have "\<dots> = src (colorx1 s + (a - colorx2 s - 2 * W) div 2)"
        by (simp only: b(1))
      finally show ?thesis using 2 W by simp
    next
      case 3
      then show ?thesis using W by (simp add: memcpy_pixels_def f(3))
    qed
  qed
  show ?thesis
    unfolding DP_row_def Let_def f(2) mm
    by (intro dp_state.equality) (simp_all add: f)
qed

lemma DoublePixels_closed_form:
  assumes W: "0 < W"
  shows "DoublePixels W src dst firstRow numRows =
           (\<lambda>a. if firstRow * (4 * W) \<le> a \<and> a < (firstRow + numRows) * (4 * W)
                 then doubled W src a else dst a)"
proof (cases "0 \<le> numRows")
  case False
  then have "(firstRow + numRows) * (4 * W) \<le> firstRow * (4 * W)"
    using W by (intro mult_right_mono) simp_all
  with False show ?thesis
    by (auto simp: DoublePixels_def count_loop_done fun_eq_iff)
next
  case True
  define s0 :: "'a dp_state" where
    "s0 = \<lparr>colorx1 = firstRow * W, colorx2 = firstRow * W * 2 * 2, x2mem = dst\<rparr>"
  define P where "P = (\<lambda>r (u :: 'a dp_state). 0 \<le> r \<and> colorx1 u = (firstRow + r) * W \<and>
      colorx2 u = (firstRow + r) * (4 * W) \<and>
      x2mem u = (\<lambda>a. if firstRow * (4 * W) \<le> a \<and> a < (firstRow + r) * (4 * W)
                       then doubled W src a else dst a))"
  have "P numRows (count_loop 0 numRows (DP_row W src) s0)"
  proof (rule count_loop_rule [where P = P])
    show "P 0 s0" by (auto simp: P_def s0_def fun_eq_iff)
    show "0 \<le> numRows" by (rule True)
  next
    fix r u assume p: "P r u" and "r < numRows"
    define y where "y = firstRow + r"
    from p have f: "0 \<le> r" "colorx1 u = y * W" "colorx2 u = y * (4 * W)"
      "x2mem u = (\<lambda>a. if firstRow * (4 * W) \<le> a \<and> a < y * (4 * W)
                       then doubled W src a else dst a)"
      unfolding P_def y_def by blast+
    have lo: "firstRow * (4 * W) \<le> y * (4 * W)"
      unfolding y_def using f(1) W by (intro mult_right_mono) simp_all
    have nx: "(firstRow + (r + 1)) * (4 * W) = y * (4 * W) + 4 * W"
      unfolding y_def by (simp add: algebra_simps)
    have "x2mem (DP_row W src r u) =
        (\<lambda>a. if firstRow * (4 * W) \<le> a \<and> a < (firstRow + (r + 1)) * (4 * W)
              then doubled W src a else dst a)"
    proof
      fix a
      show "x2mem (DP_row W src r u) a =
        (if firstRow * (4 * W) \<le> a \<and> a < (firstRow + (r + 1)) * (4 * W)
              then doubled W src a else dst a)"
      proof (cases "y * (4 * W) \<le> a \<and> a < y * (4 * W) + 4 * W")
        case True
        define c where "c = a - y * (4 * W)"
        have c: "0 \<le> c" "c < 4 * W" and a: "a = y * (4 * W) + c" using True by (simp_all add: c_def)
        have "doubled W src a = src (y * W + (if c < 2 * W then c div 2 else (c - 2 * W) div 2))"
          unfolding a by (rule doubled_in_block [OF W c])
        moreover have "x2mem (DP_row W src r u) a =
            src (y * W + (if c < 2 * W then c div 2 else (c - 2 * W) div 2))"
          using W c by (simp add: DP_row_result f(2,3) a)
        moreover have "firstRow * (4 * W) \<le> a" using lo True by linarith
        ultimately show ?thesis using True unfolding nx by simp
      next
        case False
        then have "x2mem (DP_row W src r u) a = x2mem u a"
          using W by (auto simp: DP_row_result f(3))
        with False lo W show ?thesis unfolding nx f(4) by auto
      qed
    qed
    moreover have "colorx1 (DP_row W src r u) = (firstRow + (r + 1)) * W"
      "colorx2 (DP_row W src r u) = (firstRow + (r + 1)) * (4 * W)"
      using W by (simp_all add: DP_row_result f y_def algebra_simps)
    ultimately show "P (r + 1) (DP_row W src r u)"
      unfolding P_def using f(1) by simp
  qed
  then show ?thesis
    unfolding P_def DoublePixels_def s0_def by blast
qed


lemma block_rows:
  assumes W: "0 < (W::int)" and y: "firstRow \<le> y" "y < firstRow + numRows" and c: "0 \<le> c" "c < 4 * W"
  shows "firstRow * (4 * W) \<le> y * (4 * W) + c" and "y * (4 * W) + c < (firstRow + numRows) * (4 * W)"
proof -
  have "firstRow * (4 * W) \<le> y * (4 * W)" using W y by (intro mult_right_mono) simp_all
  with c show "firstRow * (4 * W) \<le> y * (4 * W) + c" by linarith
  have "(y + 1) * (4 * W) \<le> (firstRow + numRows) * (4 * W)"
    using W y by (intro mult_right_mono) simp_all
  moreover have "(y + 1) * (4 * W) = y * (4 * W) + 4 * W" by (simp add: algebra_simps)
  then have "y * (4 * W) + c < (y + 1) * (4 * W)" using c by linarith
  ultimately show "y * (4 * W) + c < (firstRow + numRows) * (4 * W)" by linarith
qed

lemma in_rows_decompose:
  assumes W: "0 < (W::int)" and a: "firstRow * (4 * W) \<le> a" "a < (firstRow + numRows) * (4 * W)"
  obtains y c where "a = y * (4 * W) + c" and "firstRow \<le> y" and "y < firstRow + numRows"
    and "0 \<le> c" and "c < 4 * W"
proof -
  define y where "y = a div (4 * W)"
  define c where "c = a mod (4 * W)"
  have c: "0 \<le> c" "c < 4 * W" using W by (simp_all add: c_def)
  have d: "a = y * (4 * W) + c" unfolding y_def c_def by (simp only: div_mult_mod_eq)
  have "(y + 1) * (4 * W) = y * (4 * W) + 4 * W" by (simp add: algebra_simps)
  with a(1) c d have "firstRow * (4 * W) < (y + 1) * (4 * W)" by linarith
  then have "firstRow < y + 1" using W by (simp add: mult_less_cancel_right)
  moreover have "y * (4 * W) < (firstRow + numRows) * (4 * W)" using a(2) c d by linarith
  then have "y < firstRow + numRows" using W by (simp add: mult_less_cancel_right)
  ultimately show ?thesis using that [of y c] c d by simp
qed

text \<open>
  Claim C7. For a positive width and any range of rows, \<open>DoublePixels\<close> leaves a destination
  that, on the rows \<open>2 * firstRow\<close> up to \<open>2 * (firstRow + numRows)\<close> of width \<open>2 * W\<close>, is the
  nearest-neighbour doubling of the source and elsewhere is what it was: the source pixel
  \<open>(x, y)\<close> is at the four positions \<open>(2x+i, 2y+j)\<close>, and a source of one colour gives a
  destination of that colour on all those rows.
\<close>

theorem DoublePixels_replicates:
  assumes "0 < W"
  shows "DoublePixels W x1mem x2mem0 firstRow numRows =
           (\<lambda>a. if firstRow * (4 * W) \<le> a \<and> a < (firstRow + numRows) * (4 * W)
                 then doubled W x1mem a else x2mem0 a) \<and>
         (\<forall>y x i j. firstRow \<le> y \<and> y < firstRow + numRows \<and> 0 \<le> x \<and> x < W \<and>
                    0 \<le> i \<and> i < 2 \<and> 0 \<le> j \<and> j < 2 \<longrightarrow>
            DoublePixels W x1mem x2mem0 firstRow numRows ((2 * y + j) * (2 * W) + (2 * x + i)) =
              x1mem (y * W + x)) \<and>
         ((\<forall>y x. firstRow \<le> y \<and> y < firstRow + numRows \<and> 0 \<le> x \<and> x < W \<longrightarrow>
             x1mem (y * W + x) = c) \<longrightarrow>
          (\<forall>a. firstRow * (4 * W) \<le> a \<and> a < (firstRow + numRows) * (4 * W) \<longrightarrow>
             DoublePixels W x1mem x2mem0 firstRow numRows a = c))"
proof (intro conjI allI impI)
  note W = assms
  note cf = DoublePixels_closed_form [OF W, of x1mem x2mem0 firstRow numRows]
  show "DoublePixels W x1mem x2mem0 firstRow numRows =
           (\<lambda>a. if firstRow * (4 * W) \<le> a \<and> a < (firstRow + numRows) * (4 * W)
                 then doubled W x1mem a else x2mem0 a)"
    by (rule cf)
  {
    fix y x i j :: int
    assume h: "firstRow \<le> y \<and> y < firstRow + numRows \<and> 0 \<le> x \<and> x < W \<and>
                    0 \<le> i \<and> i < 2 \<and> 0 \<le> j \<and> j < 2"
    define k where "k = j * (2 * W) + (2 * x + i)"
    have a: "(2 * y + j) * (2 * W) + (2 * x + i) = y * (4 * W) + k"
      by (simp add: k_def algebra_simps)
    from h have "j = 0 \<or> j = 1" by linarith
    then have k: "0 \<le> k" "k < 4 * W" and v: "(if k < 2 * W then k div 2 else (k - 2 * W) div 2) = x"
      using h by (auto simp: k_def)
    from h have y: "firstRow \<le> y" "y < firstRow + numRows" by simp_all
    show "DoublePixels W x1mem x2mem0 firstRow numRows ((2 * y + j) * (2 * W) + (2 * x + i)) =
              x1mem (y * W + x)"
      unfolding a cf using block_rows [OF W y k] doubled_in_block [OF W k, of x1mem y]
      by (simp only: v simp_thms if_True)
  }
  {
    fix a
    assume u: "\<forall>y x. firstRow \<le> y \<and> y < firstRow + numRows \<and> 0 \<le> x \<and> x < W \<longrightarrow>
             x1mem (y * W + x) = c"
      and r: "firstRow * (4 * W) \<le> a \<and> a < (firstRow + numRows) * (4 * W)"
    from r have r': "firstRow * (4 * W) \<le> a" "a < (firstRow + numRows) * (4 * W)" by simp_all
    from in_rows_decompose [OF W r'] obtain y k where
      d: "a = y * (4 * W) + k" and y: "firstRow \<le> y" "y < firstRow + numRows"
      and k: "0 \<le> k" "k < 4 * W"
      by blast
    define x where "x = (if k < 2 * W then k div 2 else (k - 2 * W) div 2)"
    have x: "0 \<le> x" "x < W" using k by (auto simp: x_def)
    have "DoublePixels W x1mem x2mem0 firstRow numRows a = doubled W x1mem a"
      unfolding cf using r by simp
    also have "\<dots> = x1mem (y * W + x)"
      unfolding d x_def by (rule doubled_in_block [OF W k])
    also have "\<dots> = c" using u y x by blast
    finally show "DoublePixels W x1mem x2mem0 firstRow numRows a = c" .
  }
qed

theorem DoublePixels_replicates_witness:
  "map (DoublePixels 2 (\<lambda>a. a) (\<lambda>a. - 1) 1 1) [6, 7, 8, 9, 10, 11, 12, 13, 14, 15, 16, 17] =
     map (\<lambda>a. if 1 * (4 * 2) \<le> a \<and> a < (1 + 1) * (4 * 2) then doubled 2 (\<lambda>a. a) a else - 1)
       [6, 7, 8, 9, 10, 11, 12, 13, 14, 15, 16, 17] \<and>
   map (\<lambda>a. if 1 * (4 * 2) \<le> a \<and> a < (1 + 1) * (4 * 2) then doubled 2 (\<lambda>a. a) a else - 1)
       [6, 7, 8, 9, 10, 11, 12, 13, 14, 15, 16, 17] = [- 1, - 1, 2, 2, 3, 3, 2, 2, 3, 3, - 1, - 1 :: int]"
proof -
  have "map (\<lambda>a. if 1 * (4 * 2) \<le> a \<and> a < (1 + 1) * (4 * 2) then doubled 2 (\<lambda>a. a) a else - 1)
       [6, 7, 8, 9, 10, 11, 12, 13, 14, 15, 16, 17] = [- 1, - 1, 2, 2, 3, 3, 2, 2, 3, 3, - 1, - 1 :: int]"
    by (simp add: doubled_def)
  then show ?thesis
    using DoublePixels_replicates [of 2 "\<lambda>a. a" "\<lambda>a. - 1" 1 1] by simp
qed

section \<open>Properties of the fades\<close>

lemma uint_index: "0 \<le> i \<Longrightarrow> i < 255 \<Longrightarrow> uint (word_of_int i :: 8 word) = i"
  by (simp add: uint_word_of_int take_bit_int_eq_self)

lemma fade_frame_result:
  "gBackUpPalette (fade_frame toRGB toU32 b s) = gBackUpPalette s"
  "gGamePalette (fade_frame toRGB toU32 b s) =
     (\<lambda>j. if uint j < 255 then toU32 (scale_color (toRGB (gBackUpPalette s j)) b) else gGamePalette s j)"
proof -
  define P where "P = (\<lambda>i (u :: palette_state). 0 \<le> i \<and> gBackUpPalette u = gBackUpPalette s \<and>
     gGamePalette u = (\<lambda>j. if uint j < i then toU32 (scale_color (toRGB (gBackUpPalette s j)) b)
                            else gGamePalette s j))"
  have "P 255 (count_loop 0 255 (fade_entry toRGB toU32 b) s)"
  proof (rule count_loop_rule [where P = P])
    show "P 0 s" by (auto simp: P_def fun_eq_iff)
    show "(0::int) \<le> 255" by simp
  next
    fix i u assume p: "P i u" and i: "i < 255"
    then have i0: "0 \<le> i" by (simp add: P_def)
    have idx: "\<And>j :: 8 word. j = word_of_int i \<longleftrightarrow> uint j = i"
      using uint_index [OF i0 i] by (auto simp: word_uint_eq_iff)
    show "P (i + 1) (fade_entry toRGB toU32 b i u)"
      using p i0 by (auto simp: P_def fade_entry_def fun_eq_iff idx)
  qed
  then show "gBackUpPalette (fade_frame toRGB toU32 b s) = gBackUpPalette s"
    and "gGamePalette (fade_frame toRGB toU32 b s) =
     (\<lambda>j. if uint j < 255 then toU32 (scale_color (toRGB (gBackUpPalette s j)) b) else gGamePalette s j)"
    by (simp_all add: P_def fade_frame_def PresentIndexedFramebuffer_def)
qed

lemma fade_in_loop_backup:
  "gBackUpPalette (fade_in_loop toRGB toU32 b s) = gBackUpPalette s"
proof (induction toRGB toU32 b s rule: fade_in_loop.induct)
  case (1 toRGB toU32 b s)
  show ?case
  proof (cases "b \<le> 100")
    case True
    with 1 show ?thesis
      by (subst fade_in_loop.simps) (simp add: fade_frame_result)
  next
    case False
    then show ?thesis by (subst fade_in_loop.simps) simp
  qed
qed

lemma FadeIn_restores:
  "gGamePalette (FadeInGameCLUT toRGB toU32 s) = gGamePalette s"
  by (simp add: FadeInGameCLUT_def RestoreBackUpPalette_def fade_in_loop_backup MakeBackUpPalette_def)

lemma scale_color_zero: "scale_color c 0 = \<lparr>red = 0, green = 0, blue = 0\<rparr>"
  by (simp add: scale_color_def scale_channel_def)

lemma uint_255: "uint (j :: 8 word) < 255 \<longleftrightarrow> j \<noteq> 255"
proof -
  have "uint j \<le> 255" using uint_bounded [of j] by simp
  moreover have "j = 255 \<longleftrightarrow> uint j = 255" by (simp add: word_uint_eq_iff)
  ultimately show ?thesis by linarith
qed

lemma fade_out_loop_result:
  assumes "0 \<le> b" and "b mod 8 = 0"
  shows "gBackUpPalette (fade_out_loop toRGB toU32 b s) = gBackUpPalette s \<and>
         gGamePalette (fade_out_loop toRGB toU32 b s) =
           (\<lambda>j. if j = 255 then gGamePalette s j
                 else toU32 (scale_color (toRGB (gBackUpPalette s j)) 0))"
  using assms
proof (induction toRGB toU32 b s rule: fade_out_loop.induct)
  case (1 toRGB toU32 b s)
  show ?case
  proof (cases "b = 0")
    case True
    have "fade_out_loop toRGB toU32 b s = fade_frame toRGB toU32 0 s"
      unfolding True
      by (subst fade_out_loop.simps, simp, subst fade_out_loop.simps, simp)
    then show ?thesis
      by (auto simp: fade_frame_result uint_255 fun_eq_iff)
  next
    case False
    with "1.prems" have b8: "0 \<le> b - 8" "(b - 8) mod 8 = 0" by presburger+
    from "1.prems" have unf: "fade_out_loop toRGB toU32 b s =
        fade_out_loop toRGB toU32 (b - 8) (fade_frame toRGB toU32 b s)"
      by (subst fade_out_loop.simps) simp
    from "1.IH" [OF "1.prems"(1) b8] show ?thesis
      unfolding unf by (auto simp: fade_frame_result uint_255 fun_eq_iff)
  qed
qed

text \<open>
  Claim C9 (as amended). \<open>FadeInGameCLUT\<close> restores the game palette from the backup taken at
  its start: the palette it returns with is the one it was called with. \<open>FadeOutGameCLUT\<close>
  does not restore: called with the screen not blanked, it returns with the entries
  \<open>0 .. 254\<close> at brightness 0 (the packed colour of black) and entry 255 untouched, keeps
  the palette it was called with in the backup and sets the blanked flag; called with the
  screen blanked, it changes nothing.
\<close>

theorem fade_in_restores_fade_out_blanks:
  "gGamePalette (FadeInGameCLUT toRGB toU32 s) = gGamePalette s \<and>
   gGamePalette (FadeOutGameCLUT toRGB toU32 s) =
     (if gSceenBlankedFlag s then gGamePalette s
      else (\<lambda>j. if j = 255 then gGamePalette s j else toU32 \<lparr>red = 0, green = 0, blue = 0\<rparr>)) \<and>
   gBackUpPalette (FadeOutGameCLUT toRGB toU32 s) =
     (if gSceenBlankedFlag s then gBackUpPalette s else gGamePalette s) \<and>
   gSceenBlankedFlag (FadeOutGameCLUT toRGB toU32 s)"
  using fade_out_loop_result [of 96 toRGB toU32 "MakeBackUpPalette s"]
  by (simp add: FadeIn_restores FadeOutGameCLUT_def MakeBackUpPalette_def scale_color_zero cong: if_cong)

theorem fade_out_not_restored_counterexample:
  "gGamePalette (FadeOutGameCLUT U32ToRGBColor RGBColorToU32 ramp_state) 1 = 0x000000FF \<and>
   gGamePalette ramp_state 1 = 0xFF000001"
proof -
  have "gGamePalette (FadeOutGameCLUT U32ToRGBColor RGBColorToU32 ramp_state) 1 =
      RGBColorToU32 \<lparr>red = 0, green = 0, blue = 0\<rparr>"
    using fade_out_loop_result [of 96 U32ToRGBColor RGBColorToU32 "MakeBackUpPalette ramp_state"]
    by (simp add: FadeOutGameCLUT_def MakeBackUpPalette_def scale_color_zero ramp_state_def cong: if_cong)
  then show ?thesis
    by (simp add: RGBColorToU32_def ramp_state_def ramp_palette_def)
qed

section \<open>Properties of the initialisation of the render driver\<close>

text \<open>
  Claim C8. Whether \<open>GLRender_Init\<close> aborts does not depend on the maximum texture size:
  it aborts exactly when the context cannot be created or made current, a procedure is
  missing, or a debug build sees an OpenGL error. Otherwise it returns; it has shown the
  warning exactly when the maximum texture size is below the frame texture width, and
  \<open>gCanDoHQStretch\<close> is false exactly when the maximum texture size is below twice the
  frame texture width or the build is for \<open>OSXPPC\<close>.
\<close>

theorem GLRender_Init_degrades_on_small_texture:
  "GLRender_Init build backend s =
     (if context_created backend \<and> make_current backend = 0 \<and>
         (APPLE build \<or> procs_found backend) \<and> \<not> (DEBUG build \<and> gl_error backend)
      then Inr (s\<lparr>gMaxTextureSize := max_texture_size backend,
                  gCanDoHQStretch := \<not> OSXPPC build \<and> 2 * kFrameTextureWidth \<le> max_texture_size backend,
                  alerts := alerts s @
                    (if max_texture_size backend < kFrameTextureWidth
                     then [MaxTextureSizeBelowRequirements (max_texture_size backend) kFrameTextureWidth]
                     else [])\<rparr>)
      else Inl FatalAlert)"
  by (auto simp: GLRender_Init_def InitTextureAndPBO_def GAME_ASSERT_def DoAlert_def
      CHECK_GL_ERROR_def Let_def)

theorem GLRender_Init_degrades_on_small_texture_witness:
  "GLRender_Init \<lparr>OSXPPC = False, APPLE = False, DEBUG = False\<rparr>
     \<lparr>context_created = True, make_current = 0, max_texture_size = 512, procs_found = True,
      gl_error = False\<rparr>
     \<lparr>gMaxTextureSize = 0, gCanDoHQStretch = True, alerts = []\<rparr> =
   Inr \<lparr>gMaxTextureSize = 512, gCanDoHQStretch = False,
        alerts = [MaxTextureSizeBelowRequirements 512 1024]\<rparr>"
  using GLRender_Init_degrades_on_small_texture [of
      "\<lparr>OSXPPC = False, APPLE = False, DEBUG = False\<rparr>"
      "\<lparr>context_created = True, make_current = 0, max_texture_size = 512, procs_found = True,
        gl_error = False\<rparr>"
      "\<lparr>gMaxTextureSize = 0, gCanDoHQStretch = True, alerts = []\<rparr>"]
  by (simp add: kFrameTextureWidth_def)

end
